theory Spec2Isabelle
  imports Main "HOL-Library.Word"
begin

section \<open>Data model of \<^verbatim>\<open>src/src/sync.cpp\<close>\<close>

text \<open>
  The file implements \<^verbatim>\<open>Sync\<close>: the controller of one synchronised local subtree. The
  classes it works on (\<^verbatim>\<open>LocalNode\<close>, \<^verbatim>\<open>FileAccess\<close>, \<^verbatim>\<open>DirNotify\<close>, \<^verbatim>\<open>MegaClient\<close>,
  \<^verbatim>\<open>MegaApp\<close>) are declared elsewhere. Their fields are modelled as records, a
  \<^verbatim>\<open>LocalNode*\<close> is an index into an arena of nodes (\<open>None\<close> is \<^verbatim>\<open>NULL\<close>), and the
  filesystem gateway and the application callbacks are the fields of an environment.

  Integers have the width the compiled code gives them: \<^verbatim>\<open>int\<close> (the sweep number
  \<^verbatim>\<open>scanseqno\<close>, the not-seen counter) is a 32-bit word and \<^verbatim>\<open>m_off_t\<close> (sizes and the byte
  total) a 64-bit word, so that \<open>+\<close> and \<open>-\<close> wrap around as the machine does; \<open>sint\<close>
  reads a word as the signed number the code compares.
\<close>

datatype syncstate = SYNC_CANCELED | SYNC_INITIALSCAN | SYNC_ACTIVE | SYNC_FAILED

datatype nodetype = FILENODE | FOLDERNODE

datatype notifyqueue = DIREVENTS | RETRY

text \<open>\<^verbatim>\<open>LocalNode\<close>, with the fields \<^verbatim>\<open>sync.cpp\<close> reads and writes. \<open>owner\<close> is the
  \<^verbatim>\<open>Sync*\<close> the node was initialised with (the first argument of \<^verbatim>\<open>init\<close>); \<open>fsid_set\<close>
  stands for \<^verbatim>\<open>fsid_it != client->fsidnode.end()\<close>; \<open>lsize\<close>, \<open>mtime\<close> and \<open>crc\<close> are the
  fingerprint.\<close>

record localnode =
  owner :: nat
  ltype :: nodetype
  name :: string
  localname :: string
  slocalname :: string
  parent :: "nat option"
  children :: "string \<rightharpoonup> nat"
  schildren :: "string \<rightharpoonup> nat"
  node :: "nat option"
  fsid :: nat
  fsid_set :: bool
  transfer :: "nat option"
  lsize :: "64 word"
  mtime :: int
  crc :: "nat list"
  notseen :: "32 word"
  lscanseqno :: "32 word"
  syncid :: nat

text \<open>\<^verbatim>\<open>FileAccess\<close> after \<^verbatim>\<open>fopen\<close>: \<open>opened\<close> is the value \<^verbatim>\<open>fopen\<close> returned, \<open>retry\<close>
  its classification of a failure as transient.\<close>

record fileaccess =
  opened :: bool
  retry :: bool
  fa_type :: nodetype
  fsidvalid :: bool
  fa_fsid :: nat
  fa_size :: "64 word"
  fa_mtime :: int
  fa_crc :: "nat list"

text \<open>The collaborators consumed through \<^verbatim>\<open>client->fsaccess\<close> and \<^verbatim>\<open>client->app\<close>.
  \<open>dopen\<close> gives the names \<^verbatim>\<open>dnext\<close> will yield, or \<open>None\<close> when \<^verbatim>\<open>dopen\<close> fails.
  \<open>sync_syncable name path localname\<close> returns the verdict and the (possibly rewritten)
  local name, which the source passes by pointer; the containing path is left as it is.
  The answers are functions of the path for the length of one call.\<close>

record env =
  localseparator :: string
  local2name :: "string \<Rightarrow> string"
  local2path :: "string \<Rightarrow> string"
  getsname :: "string \<Rightarrow> string option"
  fopen :: "string \<Rightarrow> fileaccess"
  dopen :: "string \<Rightarrow> string list option"
  sync_syncable :: "string \<Rightarrow> string \<Rightarrow> string \<Rightarrow> bool \<times> string"

text \<open>Calls made on the application observer, in order. \<open>Syncupdate_state old new\<close> is
  \<^verbatim>\<open>syncupdate_state(this, new)\<close> made while \<^verbatim>\<open>this->state\<close> still reads \<open>old\<close>.\<close>

datatype appevent =
    Syncupdate_state syncstate syncstate
  | Syncupdate_local_move string string
  | Syncupdate_local_folder_addition string
  | Syncupdate_local_file_addition string
  | Syncupdate_local_file_change string

text \<open>One \<^verbatim>\<open>Sync\<close> (\<open>self\<close> is its address, \<^verbatim>\<open>this\<close>) together with what it reaches: its
  \<^verbatim>\<open>DirNotify\<close> queues and the fields of \<^verbatim>\<open>MegaClient\<close> it touches. The arena \<open>nodes\<close>
  holds the \<^verbatim>\<open>LocalNode\<close> objects of the whole client, those of other syncs included
  (\<^verbatim>\<open>client->fsidnode\<close> is shared by all syncs and may refer to any of them): the first
  \<open>nnodes\<close> indices are allocated, index 0 is the \<^verbatim>\<open>localroot\<close> member of this sync, and
  \<^verbatim>\<open>new LocalNode\<close> takes the next free index. \<^verbatim>\<open>sync.cpp\<close> never deletes a
  \<^verbatim>\<open>LocalNode\<close>, so allocation only grows the arena. The two node counters are only
  ever assigned 0 in this file.\<close>

record sync =
  self :: nat
  state :: syncstate
  localbytes :: "64 word"
  localnodes :: "nodetype \<Rightarrow> int"
  scanseqno :: "32 word"
  tag :: int
  nodes :: "nat \<Rightarrow> localnode"
  nnodes :: nat
  notifyq :: "notifyqueue \<Rightarrow> (nat option \<times> string) list"
  fsidnode :: "nat \<rightharpoonup> nat"
  syncactivity :: bool
  syncadded :: "nat set"
  syncs :: "nat list"
  events :: "appevent list"

definition localroot :: nat where
  "localroot = 0"

definition upd :: "sync \<Rightarrow> nat \<Rightarrow> (localnode \<Rightarrow> localnode) \<Rightarrow> sync" where
  "upd s n f = s\<lparr>nodes := (nodes s)(n := f (nodes s n))\<rparr>"

definition emit :: "sync \<Rightarrow> appevent \<Rightarrow> sync" where
  "emit s e = s\<lparr>events := events s @ [e]\<rparr>"

section \<open>Collaborator methods called by \<^verbatim>\<open>sync.cpp\<close>\<close>

text \<open>Modelled from the spec: \<^verbatim>\<open>LocalNode::setnotseen\<close> is not in \<^verbatim>\<open>src/\<close>. It stores
  the given value in the node's not-seen counter (the source calls it with \<^verbatim>\<open>0\<close>, \<^verbatim>\<open>1\<close>
  and \<^verbatim>\<open>l->notseen+1\<close>).\<close>

definition setnotseen :: "sync \<Rightarrow> nat \<Rightarrow> 32 word \<Rightarrow> sync" where
  "setnotseen s n v = upd s n (\<lambda>x. x\<lparr>notseen := v\<rparr>)"

text \<open>Modelled from the spec: \<^verbatim>\<open>LocalNode::setfsid\<close> is not in \<^verbatim>\<open>src/\<close>. An identity is
  registered in the reverse index for at most one node: the node's old registration is
  dropped, a prior owner of the new identity loses its registration, then the node is
  installed.\<close>

definition setfsid :: "sync \<Rightarrow> nat \<Rightarrow> nat \<Rightarrow> sync" where
  "setfsid s n h =
     (let s1 = (if fsid_set (nodes s n) then s\<lparr>fsidnode := (fsidnode s)(fsid (nodes s n) := None)\<rparr> else s);
          s2 = (case fsidnode s1 h of None \<Rightarrow> s1 | Some o' \<Rightarrow> upd s1 o' (\<lambda>x. x\<lparr>fsid_set := False\<rparr>));
          s3 = upd s2 n (\<lambda>x. x\<lparr>fsid := h, fsid_set := True\<rparr>)
      in s3\<lparr>fsidnode := (fsidnode s3)(h \<mapsto> n)\<rparr>)"

text \<open>The last component of a path: what follows the last occurrence of the separator
  (the whole path when there is none).\<close>

fun lastcomponent :: "string \<Rightarrow> string \<Rightarrow> string" where
  "lastcomponent sep [] = []"
| "lastcomponent sep (c # cs) =
     (let r = lastcomponent sep cs in
      if length r < length cs then r
      else if sep \<noteq> [] \<and> take (length sep) (c # cs) = sep then drop (length sep) (c # cs)
      else c # cs)"

text \<open>Modelled from the spec: \<^verbatim>\<open>LocalNode::setnameparent\<close> is not in \<^verbatim>\<open>src/\<close>. It
  re-parents the node to the new parent and name: the node leaves the primary and the
  alias children mapping of its old parent, takes the last component of the new path as
  its path fragment (and the short form the gateway gives for the path, if any, as its
  alias), and enters both mappings of the new parent. The remote counterpart is outside
  the model.\<close>

definition setnameparent :: "env \<Rightarrow> sync \<Rightarrow> nat \<Rightarrow> nat option \<Rightarrow> string \<Rightarrow> sync" where
  "setnameparent e s n newparent newlocalpath =
     (let s1 = (case parent (nodes s n) of
                  None \<Rightarrow> s
                | Some p \<Rightarrow> upd s p (\<lambda>x. x\<lparr>children := (children x)(localname (nodes s n) := None),
                                            schildren := (if slocalname (nodes s n) \<noteq> []
                                                          then (schildren x)(slocalname (nodes s n) := None)
                                                          else schildren x)\<rparr>));
          ln = lastcomponent (localseparator e) newlocalpath;
          sn = (case getsname e newlocalpath of None \<Rightarrow> [] | Some a \<Rightarrow> a);
          s2 = upd s1 n (\<lambda>x. x\<lparr>localname := ln, name := local2name e ln, slocalname := sn\<rparr>)
      in case newparent of
           None \<Rightarrow> s2
         | Some p \<Rightarrow>
             (let s3 = upd s2 n (\<lambda>x. x\<lparr>parent := Some p\<rparr>)
              in upd s3 p (\<lambda>x. x\<lparr>children := (children x)(ln \<mapsto> n),
                                  schildren := (case getsname e newlocalpath of
                                                  None \<Rightarrow> schildren x
                                                | Some a \<Rightarrow> (schildren x)(a \<mapsto> n))\<rparr>)))"

text \<open>Modelled from the spec: \<^verbatim>\<open>LocalNode::init\<close> and the \<^verbatim>\<open>FileFingerprint\<close>
  constructor are not in \<^verbatim>\<open>src/\<close>. A fresh node belongs to the sync it is initialised
  with and has the given kind, no children, no remote counterpart, no transfer, no
  registered identity, a not-seen counter of 0, the current sweep stamp and no
  fingerprint yet (size \<open>-1\<close>, which the guard \<^verbatim>\<open>l->size > 0\<close> of \<^verbatim>\<open>checkpath\<close> skips).
  Under a parent it is linked by \<open>setnameparent\<close>; the root keeps the whole path as
  its path fragment.\<close>

definition blank :: "nat \<Rightarrow> nodetype \<Rightarrow> nat \<Rightarrow> 32 word \<Rightarrow> localnode" where
  "blank ow t i sq =
     \<lparr>owner = ow, ltype = t, name = [], localname = [], slocalname = [], parent = None,
      children = Map.empty, schildren = Map.empty, node = None, fsid = 0, fsid_set = False,
      transfer = None, lsize = - 1, mtime = 0, crc = [], notseen = 0, lscanseqno = sq,
      syncid = i\<rparr>"

definition init :: "env \<Rightarrow> sync \<Rightarrow> nat \<Rightarrow> nodetype \<Rightarrow> nat option \<Rightarrow> string \<Rightarrow> string \<Rightarrow> sync" where
  "init e s n t cparent cname cfullpath =
     (let s1 = s\<lparr>nodes := (nodes s)(n := blank (self s) t n (scanseqno s))\<rparr>
      in case cparent of
           None \<Rightarrow> upd s1 n (\<lambda>x. x\<lparr>localname := cfullpath, name := cname\<rparr>)
         | Some p \<Rightarrow> setnameparent e s1 n (Some p) cfullpath)"

text \<open>Modelled from the spec: \<^verbatim>\<open>FileFingerprint::genfingerprint\<close> is not in \<^verbatim>\<open>src/\<close>. It
  recomputes size, modification time and content digest from the open handle and tells
  whether any of them differs from what the node had.\<close>

definition genfingerprint :: "sync \<Rightarrow> nat \<Rightarrow> fileaccess \<Rightarrow> bool \<times> sync" where
  "genfingerprint s n fa =
     (lsize (nodes s n) \<noteq> fa_size fa \<or> mtime (nodes s n) \<noteq> fa_mtime fa \<or> crc (nodes s n) \<noteq> fa_crc fa,
      upd s n (\<lambda>x. x\<lparr>lsize := fa_size fa, mtime := fa_mtime fa, crc := fa_crc fa\<rparr>))"

text \<open>Modelled from the spec: \<^verbatim>\<open>MegaClient::stopxfer\<close> is not in \<^verbatim>\<open>src/\<close>. It cancels the
  node's outgoing transfer: the node no longer refers to one.\<close>

definition stopxfer :: "sync \<Rightarrow> nat \<Rightarrow> sync" where
  "stopxfer s n = upd s n (\<lambda>x. x\<lparr>transfer := None\<rparr>)"

text \<open>Modelled from the spec: \<^verbatim>\<open>DirNotify::notify\<close> is not in \<^verbatim>\<open>src/\<close>. It appends the
  entry (node hint, path) to the chosen queue.\<close>

definition notify :: "sync \<Rightarrow> notifyqueue \<Rightarrow> nat option \<Rightarrow> string \<Rightarrow> sync" where
  "notify s q l p = s\<lparr>notifyq := (notifyq s)(q := notifyq s q @ [(l, p)])\<rparr>"

text \<open>Modelled from the spec: \<^verbatim>\<open>LocalNode::getlocalpath\<close> is not in \<^verbatim>\<open>src/\<close>. The full
  path of a node is rebuilt from the path fragments along its parent chain, joined by the
  separator. A parent chain that never reaches the root gives no path.\<close>

partial_function (option) getlocalpath :: "string \<Rightarrow> (nat \<Rightarrow> localnode) \<Rightarrow> nat \<Rightarrow> string option" where
  "getlocalpath sep h n =
     (case parent (h n) of
        None \<Rightarrow> Some (localname (h n))
      | Some p \<Rightarrow> Option.bind (getlocalpath sep h p) (\<lambda>pp. Some (pp @ sep @ localname (h n))))"

declare getlocalpath.simps [code]

section \<open>\<^verbatim>\<open>Sync::Sync\<close>, \<^verbatim>\<open>Sync::~Sync\<close>, \<^verbatim>\<open>Sync::changestate\<close>\<close>

text \<open>The constructor, lines 30--47, for the sync object at address \<open>this\<close>. \<open>c\<close> is the
  memory it runs on: the fields of the client as they are, and the fields of the new
  object with whatever the storage holds. The constructor assigns \<^verbatim>\<open>tag\<close>,
  \<^verbatim>\<open>localbytes\<close>, the two counters, \<^verbatim>\<open>state\<close> and \<^verbatim>\<open>dirnotify\<close>, initialises the root and
  appends itself to \<^verbatim>\<open>client->syncs\<close>; it never assigns \<^verbatim>\<open>scanseqno\<close>, which keeps the
  value \<open>c\<close> has for it. \<^verbatim>\<open>newdirnotify\<close> gives empty queues; \<^verbatim>\<open>setnode\<close> (not in
  \<^verbatim>\<open>src/\<close>) stores the remote counterpart in the root.\<close>

definition Sync :: "env \<Rightarrow> nat \<Rightarrow> sync \<Rightarrow> string \<Rightarrow> nat option \<Rightarrow> int \<Rightarrow> sync" where
  "Sync e this c crootpath remotenode ctag =
     (let s = c\<lparr>self := this, tag := ctag, localbytes := 0, localnodes := (\<lambda>_. 0),
                state := SYNC_INITIALSCAN, notifyq := (\<lambda>_. [])\<rparr>;
          s1 = init e s localroot FOLDERNODE None crootpath crootpath;
          s2 = upd s1 localroot (\<lambda>x. x\<lparr>node := remotenode\<rparr>)
      in s2\<lparr>syncs := syncs s2 @ [this]\<rparr>)"

text \<open>The destructor, lines 49--57, as the states its three statements leave one after
  the other: line 52 assigns the state, line 54 erases the entry the constructor
  inserted, line 56 flags sync activity. The destructor returns in the last of them.\<close>

definition Sync_destroy_steps :: "sync \<Rightarrow> sync list" where
  "Sync_destroy_steps s =
     (let s1 = s\<lparr>state := SYNC_CANCELED\<rparr>;
          s2 = s1\<lparr>syncs := remove1 (self s1) (syncs s1)\<rparr>;
          s3 = s2\<lparr>syncactivity := True\<rparr>
      in [s1, s2, s3])"

definition Sync_destroy :: "sync \<Rightarrow> sync" where
  "Sync_destroy s = last (Sync_destroy_steps s)"

definition changestate :: "sync \<Rightarrow> syncstate \<Rightarrow> sync" where
  "changestate s newstate =
     (if newstate \<noteq> state s
      then (emit s (Syncupdate_state (state s) newstate))\<lparr>state := newstate\<rparr>
      else s)"

section \<open>\<^verbatim>\<open>Sync::localnodebypath\<close>\<close>

text \<open>\<^verbatim>\<open>l->children.find(&t)\<close>, then \<^verbatim>\<open>l->schildren.find(&t)\<close>.\<close>

definition findchild :: "localnode \<Rightarrow> string \<Rightarrow> nat option" where
  "findchild x t = (case children x t of Some c \<Rightarrow> Some c | None \<Rightarrow> schildren x t)"

text \<open>The loop of lines 98--125. \<open>ptr\<close> and \<open>nptr\<close> are offsets into the path;
  \<^verbatim>\<open>memcmp\<close> against the separator is a comparison with the bytes at the offset, which
  differ when fewer bytes than the separator has are left. The result is (returned node,
  \<^verbatim>\<open>*parent\<close>, \<^verbatim>\<open>*rpath\<close>). A walk that steps past the end of the path without meeting it
  never returns.\<close>

partial_function (option) walk ::
  "string \<Rightarrow> (nat \<Rightarrow> localnode) \<Rightarrow> string \<Rightarrow> nat \<Rightarrow> nat \<Rightarrow> nat \<Rightarrow> (nat option \<times> nat option \<times> string) option"
where
  "walk sep h localpath l ptr nptr =
     (if nptr = length localpath \<or> take (length sep) (drop nptr localpath) = sep
      then (case findchild (h l) (take (nptr - ptr) (drop ptr localpath)) of
              None \<Rightarrow> Some (None, Some l, drop ptr localpath)
            | Some c \<Rightarrow>
                if nptr = length localpath then Some (Some c, Some l, [])
                else walk sep h localpath c (nptr + length sep) (nptr + length sep))
      else walk sep h localpath l ptr (nptr + length sep))"

declare walk.simps [code]

definition localnodebypath ::
  "env \<Rightarrow> sync \<Rightarrow> nat option \<Rightarrow> string \<Rightarrow> (nat option \<times> nat option \<times> string) option" where
  "localnodebypath e s l localpath =
     (let sep = localseparator e; rootname = localname (nodes s localroot) in
      case l of
        None \<Rightarrow>
          if take (length rootname) localpath \<noteq> rootname
             \<or> take (length sep) (drop (length rootname) localpath) \<noteq> sep
          then Some (None, None, [])
          else walk sep (nodes s) localpath localroot
                 (length rootname + length sep) (length rootname + length sep)
      | Some n \<Rightarrow> walk sep (nodes s) localpath n 0 0)"

section \<open>\<^verbatim>\<open>Sync::scan\<close>\<close>

text \<open>Lines 141--181. Every name the directory yields and the application accepts is
  placed in the \<^verbatim>\<open>DIREVENTS\<close> queue with its full path and no node hint. The result is
  \<^verbatim>\<open>success\<close>, which is what \<^verbatim>\<open>dopen\<close> returned.\<close>

definition scan :: "env \<Rightarrow> sync \<Rightarrow> string \<Rightarrow> bool \<times> sync" where
  "scan e s localpath =
     (case dopen e localpath of
        None \<Rightarrow> (False, s)
      | Some names \<Rightarrow>
          (True,
           foldl (\<lambda>s' localname'.
                    (case sync_syncable e (local2name e localname') localpath localname' of
                       (ok, ln) \<Rightarrow>
                         if ok
                         then notify s' DIREVENTS None
                                ((if localpath \<noteq> [] then localpath @ localseparator e else localpath) @ ln)
                         else s'))
                 s names))"

section \<open>\<^verbatim>\<open>Sync::checkpath\<close>\<close>

text \<open>What lines 200--233 establish before the open: the matched node \<open>r_l\<close>, the
  \<open>r_parent\<close> a new node would get, \<open>r_isroot\<close>, the name and the path handed to
  \<^verbatim>\<open>init\<close>, \<^verbatim>\<open>fopen\<close>, \<^verbatim>\<open>setnameparent\<close> and \<^verbatim>\<open>scan\<close>
  (\<^verbatim>\<open>localname ? localpath : &tmppath\<close>), and the path shown to the application.\<close>

record resolved =
  r_l :: "nat option"
  r_parent :: "nat option"
  r_isroot :: bool
  r_name :: string
  r_open :: string
  r_path :: string

text \<open>Lines 212--218: the full filesystem path in \<^verbatim>\<open>tmppath\<close>.\<close>

definition fullpath :: "env \<Rightarrow> sync \<Rightarrow> nat option \<Rightarrow> string \<Rightarrow> string option" where
  "fullpath e s l localpath =
     Option.bind (case l of None \<Rightarrow> Some [] | Some n \<Rightarrow> getlocalpath (localseparator e) (nodes s) n)
       (\<lambda>tmppath.
          Some (if localpath \<noteq> []
                then (if tmppath \<noteq> [] then tmppath @ localseparator e else tmppath) @ localpath
                else tmppath))"

text \<open>Lines 200--233. The outer \<open>None\<close> is a walk that does not return; the inner
  \<open>None\<close> is one of the two \<^verbatim>\<open>return NULL\<close> (invalid path, vetoed name).\<close>

definition resolve ::
  "env \<Rightarrow> sync \<Rightarrow> nat option \<Rightarrow> string \<Rightarrow> string option \<Rightarrow> resolved option option" where
  "resolve e s l localpath localname' =
     (case localname' of
        Some lname \<Rightarrow>
          Some (Some \<lparr>r_l = None, r_parent = l, r_isroot = False, r_name = lname,
                      r_open = localpath, r_path = local2path e localpath\<rparr>)
      | None \<Rightarrow>
          Option.bind (fullpath e s l localpath) (\<lambda>tmppath.
          Option.bind (localnodebypath e s l localpath) (\<lambda>(l', parent', newname).
            if l' = None \<and> newname = [] then Some None
            else (case sync_syncable e (local2name e newname) tmppath newname of
                    (ok, newname') \<Rightarrow>
                      if \<not> ok then Some None
                      else Some (Some \<lparr>r_l = l', r_parent = parent',
                                        r_isroot = (l' = Some localroot \<and> newname' = []),
                                        r_name = newname', r_open = tmppath,
                                        r_path = local2path e tmppath\<rparr>)))))"

text \<open>Lines 242--257: a node is tracked at the path. \<open>overwritten\<close> is the test of line
  246.\<close>

definition overwritten :: "sync \<Rightarrow> nat \<Rightarrow> fileaccess \<Rightarrow> bool" where
  "overwritten s n fa \<longleftrightarrow>
     fa_type fa = FILENODE \<and> fsidvalid fa \<and> fsid_set (nodes s n) \<and> fsid (nodes s n) \<noteq> fa_fsid fa"

definition refresh :: "sync \<Rightarrow> nat \<Rightarrow> fileaccess \<Rightarrow> nat option \<times> sync" where
  "refresh s n fa =
     (if overwritten s n fa
      then (None, setnotseen s n (notseen (nodes s n) + 1))
      else (let s1 = (if fsidvalid fa then setfsid s n (fa_fsid fa) else s);
                s2 = setnotseen s1 n 0
            in (Some n, upd s2 n (\<lambda>x. x\<lparr>lscanseqno := scanseqno s2\<rparr>))))"

text \<open>Lines 260--283: no node is tracked at the path (or it was just dropped). The
  result is (\<^verbatim>\<open>l\<close>, \<^verbatim>\<open>newnode\<close>, state). \<^verbatim>\<open>new LocalNode\<close> takes the next free index.\<close>

definition addormove :: "env \<Rightarrow> sync \<Rightarrow> resolved \<Rightarrow> fileaccess \<Rightarrow> nat option \<times> bool \<times> sync" where
  "addormove e s r fa =
     (case (if fsidvalid fa then fsidnode s (fa_fsid fa) else None) of
        Some m \<Rightarrow>
          (let s1 = emit s (Syncupdate_local_move (name (nodes s m)) (r_path r));
               s2 = setnameparent e s1 m (r_parent r) (r_open r)
           in (None, False, setnotseen s2 m 0))
      | None \<Rightarrow>
          (let n = nnodes s;
               s1 = init e (s\<lparr>nnodes := Suc n\<rparr>) n (fa_type fa) (r_parent r) (r_name r) (r_open r);
               s2 = (if fsidvalid fa then setfsid s1 n (fa_fsid fa) else s1)
           in (Some n, True, s2)))"

text \<open>Lines 240--284.\<close>

definition track :: "env \<Rightarrow> sync \<Rightarrow> resolved \<Rightarrow> fileaccess \<Rightarrow> nat option \<times> bool \<times> sync" where
  "track e s r fa =
     (if r_isroot r then (r_l r, False, s)
      else (case (case r_l r of None \<Rightarrow> (None, s) | Some n \<Rightarrow> refresh s n fa) of
              (None, s1) \<Rightarrow> addormove e s1 r fa
            | (Some n, s1) \<Rightarrow> (Some n, False, s1)))"

text \<open>Lines 286--311. The result is (\<^verbatim>\<open>l\<close>, \<^verbatim>\<open>changed\<close>, state). \<^verbatim>\<open>l->size > 0\<close> compares
  signed 64-bit numbers; \<^verbatim>\<open>localbytes -= l->size\<close> and \<^verbatim>\<open>localbytes += l->size\<close> wrap at
  64 bits.\<close>

definition bykind ::
  "env \<Rightarrow> sync \<Rightarrow> resolved \<Rightarrow> fileaccess \<Rightarrow> nat option \<Rightarrow> bool \<Rightarrow> nat option \<times> bool \<times> sync" where
  "bykind e s r fa l newnode =
     (case l of
        None \<Rightarrow> (None, False, s)
      | Some n \<Rightarrow>
          if ltype (nodes s n) = FOLDERNODE
          then (if newnode
                then (Some n, False,
                      emit (snd (scan e s (r_open r))) (Syncupdate_local_folder_addition (r_path r)))
                else (None, False, s))
          else if r_isroot r then (Some n, False, changestate s SYNC_FAILED)
          else (let s1 = (if 0 < sint (lsize (nodes s n))
                          then s\<lparr>localbytes := localbytes s - lsize (nodes s n)\<rparr> else s);
                    (changed, s2) = genfingerprint s1 n fa;
                    s3 = (if 0 < sint (lsize (nodes s2 n))
                          then s2\<lparr>localbytes := localbytes s2 + lsize (nodes s2 n)\<rparr> else s2);
                    s4 = (if newnode then emit s3 (Syncupdate_local_file_addition (r_path r))
                          else if changed then emit s3 (Syncupdate_local_file_change (r_path r))
                          else s3)
                in (Some n, changed, s4)))"

text \<open>Lines 236--341, from the open to the return. \<open>ll\<close> and \<open>localpath\<close> are the
  arguments \<^verbatim>\<open>checkpath\<close> was called with. At line 316 \<^verbatim>\<open>l\<close> is never \<^verbatim>\<open>NULL\<close>:
  \<^verbatim>\<open>changed\<close> and \<^verbatim>\<open>newnode\<close> are only set where it is not (\<open>line_316_not_null\<close> below).\<close>

definition examine :: "env \<Rightarrow> sync \<Rightarrow> nat option \<Rightarrow> string \<Rightarrow> resolved \<Rightarrow> nat option \<times> sync" where
  "examine e s ll localpath r =
     (let fa = fopen e (r_open r) in
      if opened fa
      then (case track e s r fa of
              (l1, newnode, s1) \<Rightarrow>
                (case bykind e s1 r fa l1 newnode of
                   (l2, changed, s2) \<Rightarrow>
                     (l2,
                      if changed \<or> newnode
                      then (case l2 of
                              None \<Rightarrow> s2
                            | Some n \<Rightarrow> s2\<lparr>syncadded := insert (syncid (nodes s2 n)) (syncadded s2),
                                            syncactivity := True\<rparr>)
                      else s2)))
      else if retry fa then (None, notify s RETRY ll localpath)
      else (case r_l r of
              None \<Rightarrow> (None, s)
            | Some n \<Rightarrow>
                (None,
                 setnotseen ((if transfer (nodes s n) \<noteq> None then stopxfer s n else s)
                               \<lparr>syncactivity := True\<rparr>) n 1)))"

definition checkpath ::
  "env \<Rightarrow> sync \<Rightarrow> nat option \<Rightarrow> string \<Rightarrow> string option \<Rightarrow> (nat option \<times> sync) option" where
  "checkpath e s l localpath localname' =
     (case resolve e s l localpath localname' of
        None \<Rightarrow> None
      | Some None \<Rightarrow> Some (None, s)
      | Some (Some r) \<Rightarrow> Some (examine e s l localpath r))"

section \<open>\<^verbatim>\<open>Sync::procscanq\<close>\<close>

text \<open>\<^verbatim>\<open>!q\<close> for the two queue indices \<^verbatim>\<open>DIREVENTS\<close> (0) and \<^verbatim>\<open>RETRY\<close> (1).\<close>

fun otherq :: "notifyqueue \<Rightarrow> notifyqueue" where
  "otherq DIREVENTS = RETRY"
| "otherq RETRY = DIREVENTS"

text \<open>The loop of lines 347--355. \<^verbatim>\<open>checkpath\<close> may append to the queue being drained
  (a retry, a scan), so the loop need not end.\<close>

partial_function (option) drain :: "env \<Rightarrow> notifyqueue \<Rightarrow> sync \<Rightarrow> sync option" where
  "drain e q s =
     (case notifyq s q of
        [] \<Rightarrow> Some s
      | front # _ \<Rightarrow>
          (case checkpath e s (fst front) (snd front) None of
             None \<Rightarrow> None
           | Some (l, s1) \<Rightarrow>
               (let s2 = s1\<lparr>notifyq := (notifyq s1)(q := tl (notifyq s1 q))\<rparr> in
                if (case l of None \<Rightarrow> False | Some n \<Rightarrow> ltype (nodes s2 n) = FILENODE)
                then Some s2
                else drain e q s2)))"

declare drain.simps [code]

text \<open>Lines 345--359. The \<^verbatim>\<open>scanseqno++\<close> of line 358 is an addition on a 32-bit word: from
  \<^verbatim>\<open>INT_MAX\<close> it goes to \<^verbatim>\<open>INT_MIN\<close>.\<close>

definition procscanq :: "env \<Rightarrow> sync \<Rightarrow> notifyqueue \<Rightarrow> sync option" where
  "procscanq e s q =
     (case drain e q s of
        None \<Rightarrow> None
      | Some s1 \<Rightarrow>
          Some (if notifyq s1 q \<noteq> [] then s1\<lparr>syncactivity := True\<rparr>
                else if notifyq s1 (otherq q) = [] then s1\<lparr>scanseqno := scanseqno s1 + 1\<rparr>
                else s1))"

section \<open>Properties stated about the model\<close>

text \<open>A pointer is \<open>mine\<close> for the sync when it is \<^verbatim>\<open>NULL\<close> or refers to an allocated
  \<^verbatim>\<open>LocalNode\<close> that was initialised with this sync.\<close>

definition mine :: "sync \<Rightarrow> nat option \<Rightarrow> bool" where
  "mine s l \<longleftrightarrow> (case l of None \<Rightarrow> True | Some n \<Rightarrow> n < nnodes s \<and> owner (nodes s n) = self s)"

text \<open>The sum, in the 64-bit arithmetic of \<^verbatim>\<open>localbytes\<close>, of the fingerprint sizes of the
  FILE-kind nodes among the \<^verbatim>\<open>LocalNode\<close> objects of this sync that exist, whether or not
  they are still linked into the tree.\<close>

definition filebytes :: "sync \<Rightarrow> 64 word" where
  "filebytes s =
     sum_list (map (\<lambda>n. if owner (nodes s n) = self s \<and> ltype (nodes s n) = FILENODE
                         then lsize (nodes s n) else 0) [0..<nnodes s])"

text \<open>The same sum over the integers, each size read as the signed number it stands
  for.\<close>

definition intbytes :: "sync \<Rightarrow> int" where
  "intbytes s =
     sum_list (map (\<lambda>n. if owner (nodes s n) = self s \<and> ltype (nodes s n) = FILENODE
                         then sint (lsize (nodes s n)) else 0) [0..<nnodes s])"

text \<open>Every FILE-kind node of this sync has a fingerprint: its size is not the \<open>-1\<close> of a
  fresh node.\<close>

definition sized :: "sync \<Rightarrow> bool" where
  "sized s \<longleftrightarrow> (\<forall>n \<in> set [0..<nnodes s].
      owner (nodes s n) = self s \<and> ltype (nodes s n) = FILENODE \<longrightarrow> 0 \<le> sint (lsize (nodes s n)))"

definition bytes_inv :: "sync \<Rightarrow> bool" where
  "bytes_inv s \<longleftrightarrow> localbytes s = filebytes s \<and> sized s"

text \<open>A node is attached to the tree of this sync when its parent chain leads to
  \<^verbatim>\<open>localroot\<close> and every node on it is the entry of its parent's primary children mapping
  under its own path fragment. \<open>trackedbytes\<close> is the sum of the sizes of the attached
  FILE-kind nodes.\<close>

fun uproot :: "(nat \<Rightarrow> localnode) \<Rightarrow> nat \<Rightarrow> nat \<Rightarrow> bool" where
  "uproot h 0 n = (n = localroot \<and> parent (h n) = None)"
| "uproot h (Suc k) n =
     (case parent (h n) of
        None \<Rightarrow> n = localroot
      | Some p \<Rightarrow> children (h p) (localname (h n)) = Some n \<and> uproot h k p)"

definition attached :: "sync \<Rightarrow> nat \<Rightarrow> bool" where
  "attached s n \<longleftrightarrow> uproot (nodes s) (nnodes s) n"

definition trackedbytes :: "sync \<Rightarrow> 64 word" where
  "trackedbytes s =
     sum_list (map (\<lambda>n. if attached s n \<and> ltype (nodes s n) = FILENODE
                         then lsize (nodes s n) else 0) [0..<nnodes s])"

text \<open>What lines 303 and 305 subtract and add for a node of the sync \<open>me\<close>.\<close>

definition posz :: "nat \<Rightarrow> localnode \<Rightarrow> 64 word" where
  "posz me x = (if owner x = me \<and> ltype x = FILENODE \<and> 0 < sint (lsize x) then lsize x else 0)"

definition posbytes :: "nat \<Rightarrow> (nat \<Rightarrow> localnode) \<Rightarrow> nat \<Rightarrow> 64 word" where
  "posbytes me h k = sum_list (map (\<lambda>n. posz me (h n)) [0..<k])"

definition pinv :: "sync \<Rightarrow> bool" where
  "pinv s \<longleftrightarrow> localbytes s = posbytes (self s) (nodes s) (nnodes s)"

text \<open>Two ways a step can leave owners, kinds and sizes: untouched, or with one node of
  this sync added.\<close>

definition same_sizes :: "sync \<Rightarrow> sync \<Rightarrow> bool" where
  "same_sizes s s' \<longleftrightarrow> localbytes s' = localbytes s \<and> nnodes s' = nnodes s \<and> self s' = self s \<and>
     (\<forall>m. owner (nodes s' m) = owner (nodes s m) \<and> ltype (nodes s' m) = ltype (nodes s m)
          \<and> lsize (nodes s' m) = lsize (nodes s m))"

definition added :: "sync \<Rightarrow> nodetype \<Rightarrow> sync \<Rightarrow> bool" where
  "added s t s' \<longleftrightarrow> localbytes s' = localbytes s \<and> nnodes s' = Suc (nnodes s) \<and> self s' = self s \<and>
     (\<forall>m. owner (nodes s' m) = (if m = nnodes s then self s else owner (nodes s m)) \<and>
          ltype (nodes s' m) = (if m = nnodes s then t else ltype (nodes s m)) \<and>
          lsize (nodes s' m) = (if m = nnodes s then - 1 else lsize (nodes s m)))"

text \<open>The tree of the sync is its own when the root and every node that a node of the sync
  has in a children mapping are allocated nodes of the sync. Nothing is asked of
  \<^verbatim>\<open>client->fsidnode\<close>, which may refer to nodes of any sync.\<close>

definition kids :: "localnode \<Rightarrow> nat set" where
  "kids x = ran (children x) \<union> ran (schildren x)"

definition own_tree :: "sync \<Rightarrow> bool" where
  "own_tree s \<longleftrightarrow> mine s (Some localroot) \<and>
     (\<forall>n<nnodes s. owner (nodes s n) = self s \<longrightarrow> (\<forall>c \<in> kids (nodes s n). mine s (Some c)))"

text \<open>The node that line 265 finds in the identity index for an opened entry.\<close>

definition byfsid :: "sync \<Rightarrow> fileaccess \<Rightarrow> nat option" where
  "byfsid s fa = (if fsidvalid fa then fsidnode s (fa_fsid fa) else None)"

text \<open>The two tests that choose between refresh, move and new node: no node is kept for
  the path (none matched, or the matched one failed the test of line 246), and the
  identity of the opened entry is in the index (line 265).\<close>

definition unmatched :: "sync \<Rightarrow> resolved \<Rightarrow> fileaccess \<Rightarrow> bool" where
  "unmatched s r fa \<longleftrightarrow> (case r_l r of None \<Rightarrow> True | Some n \<Rightarrow> overwritten s n fa)"

definition registered :: "sync \<Rightarrow> fileaccess \<Rightarrow> bool" where
  "registered s fa \<longleftrightarrow> fsidvalid fa \<and> fsidnode s (fa_fsid fa) \<noteq> None"

text \<open>Whether the walk of lines 98--125 matches every component it finds to a node that is
  a child of the node looked in and has the component as its path fragment. It follows
  the walk step by step and stops with \<open>False\<close> at the first component that is matched
  otherwise, which is what a lookup through the alias mapping gives when the alias is
  not the path fragment.\<close>

partial_function (option) plainwalk ::
  "string \<Rightarrow> (nat \<Rightarrow> localnode) \<Rightarrow> string \<Rightarrow> nat \<Rightarrow> nat \<Rightarrow> nat \<Rightarrow> bool option"
where
  "plainwalk sep h localpath l ptr nptr =
     (if nptr = length localpath \<or> take (length sep) (drop nptr localpath) = sep
      then (case findchild (h l) (take (nptr - ptr) (drop ptr localpath)) of
              None \<Rightarrow> Some True
            | Some c \<Rightarrow>
                if parent (h c) = Some l \<and> localname (h c) = take (nptr - ptr) (drop ptr localpath)
                then (if nptr = length localpath then Some True
                      else plainwalk sep h localpath c (nptr + length sep) (nptr + length sep))
                else Some False)
      else plainwalk sep h localpath l ptr (nptr + length sep))"

declare plainwalk.simps [code]

definition plainly :: "env \<Rightarrow> sync \<Rightarrow> string \<Rightarrow> bool" where
  "plainly e s P \<longleftrightarrow>
     parent (nodes s localroot) = None \<and>
     plainwalk (localseparator e) (nodes s) P localroot
       (length (localname (nodes s localroot)) + length (localseparator e))
       (length (localname (nodes s localroot)) + length (localseparator e)) = Some True"

text \<open>The round trip for a result of \<^verbatim>\<open>localnodebypath\<close> on the path \<open>P\<close>. On a full match
  the residual is empty and the path of the node is \<open>P\<close>. Otherwise the path of the
  returned parent, the separator and the residual give \<open>P\<close>, and the residual begins with
  a component (ending at the end of the path or before a separator) that the parent does
  not have.\<close>

definition roundtrip :: "string \<Rightarrow> (nat \<Rightarrow> localnode) \<Rightarrow> string \<Rightarrow> nat option \<times> nat option \<times> string \<Rightarrow> bool" where
  "roundtrip sep h P y \<longleftrightarrow>
     (case y of
        (Some n, par, residual) \<Rightarrow> residual = [] \<and> getlocalpath sep h n = Some P
      | (None, par, residual) \<Rightarrow>
          (\<exists>p pp. par = Some p \<and> getlocalpath sep h p = Some pp \<and> pp @ sep @ residual = P
             \<and> (\<exists>t rest. residual = t @ rest \<and> (rest = [] \<or> take (length sep) rest = sep)
                    \<and> findchild (h p) t = None)))"

section \<open>Concrete gateways, trees and runs\<close>

text \<open>Answers of \<^verbatim>\<open>fopen\<close>: a permanent failure, a transient one, a file and a folder with
  a valid identity.\<close>

definition fa_absent :: fileaccess where
  "fa_absent = \<lparr>opened = False, retry = False, fa_type = FILENODE, fsidvalid = False,
                 fa_fsid = 0, fa_size = 0, fa_mtime = 0, fa_crc = []\<rparr>"

definition fa_busy :: fileaccess where
  "fa_busy = fa_absent\<lparr>retry := True\<rparr>"

definition fa_file :: "nat \<Rightarrow> 64 word \<Rightarrow> fileaccess" where
  "fa_file i sz = \<lparr>opened = True, retry = False, fa_type = FILENODE, fsidvalid = True,
                   fa_fsid = i, fa_size = sz, fa_mtime = 0, fa_crc = []\<rparr>"

definition fa_folder :: "nat \<Rightarrow> fileaccess" where
  "fa_folder i = \<lparr>opened = True, retry = False, fa_type = FOLDERNODE, fsidvalid = True,
                  fa_fsid = i, fa_size = 0, fa_mtime = 0, fa_crc = []\<rparr>"

text \<open>A gateway with separator \<^verbatim>\<open>/\<close>, no name conversion, no short names, empty
  directories, where every open gives the same answer; the application accepts every
  name (\<open>posix\<close>) or none (\<open>veto\<close>).\<close>

definition posix :: "fileaccess \<Rightarrow> env" where
  "posix fa = \<lparr>localseparator = ''/'', local2name = (\<lambda>x. x), local2path = (\<lambda>x. x),
               getsname = (\<lambda>_. None), fopen = (\<lambda>_. fa), dopen = (\<lambda>_. Some []),
               sync_syncable = (\<lambda>n p l. (True, l))\<rparr>"

definition veto :: "fileaccess \<Rightarrow> env" where
  "veto fa = (posix fa)\<lparr>sync_syncable := (\<lambda>n p l. (False, l))\<rparr>"

text \<open>The same gateway on a filesystem that gives \<^verbatim>\<open>/sync/Program Files\<close> the short name
  \<^verbatim>\<open>PROGRA~1\<close>.\<close>

definition dos :: "fileaccess \<Rightarrow> env" where
  "dos fa = (posix fa)\<lparr>getsname := (\<lambda>p. if p = ''/sync/Program Files'' then Some ''PROGRA~1'' else None)\<rparr>"

text \<open>The state a call of \<^verbatim>\<open>checkpath\<close> leaves.\<close>

definition after :: "(nat option \<times> sync) option \<Rightarrow> sync \<Rightarrow> sync" where
  "after c d = (case c of None \<Rightarrow> d | Some (_, s) \<Rightarrow> s)"

text \<open>The memory a first sync is constructed on: a client without syncs, nodes or
  registered identities, and the storage of the new object, whose fields hold what the
  constructor has to overwrite (a state, a byte total) and a sweep number of \<^verbatim>\<open>INT_MAX\<close>.\<close>

definition c_new :: sync where
  "c_new = \<lparr>self = 0, state = SYNC_FAILED, localbytes = 99, localnodes = (\<lambda>_. 5),
             scanseqno = 2147483647, tag = 3, nodes = (\<lambda>i. blank 0 FOLDERNODE i 0), nnodes = 1,
             notifyq = (\<lambda>_. [(None, ''x'')]), fsidnode = Map.empty, syncactivity = False,
             syncadded = {}, syncs = [], events = []\<rparr>"

text \<open>A new sync on \<^verbatim>\<open>/sync\<close>; then \<^verbatim>\<open>/sync/a.txt\<close> (identity 42, 10 bytes) is seen; then
  the folder \<^verbatim>\<open>/sync/sub\<close> (identity 7); and, from the second state, \<^verbatim>\<open>/sync/a.txt\<close> is
  missed once and twice.\<close>

definition s_root :: sync where
  "s_root = Sync (posix fa_absent) 1 c_new ''/sync'' None 0"

definition s_file :: sync where
  "s_file = after (checkpath (posix (fa_file 42 10)) s_root None ''/sync/a.txt'' None) s_root"

definition s_sub :: sync where
  "s_sub = after (checkpath (posix (fa_folder 7)) s_file None ''/sync/sub'' None) s_file"

definition s_miss :: sync where
  "s_miss = after (checkpath (posix fa_absent) s_file None ''/sync/a.txt'' None) s_file"

definition s_miss2 :: sync where
  "s_miss2 = after (checkpath (posix fa_absent) s_miss None ''/sync/a.txt'' None) s_miss"


definition s_grown :: sync where
  "s_grown = after (checkpath (posix (fa_file 42 25)) s_file None ''/sync/a.txt'' None) s_file"

text \<open>From the second state, \<^verbatim>\<open>/sync/a.txt\<close> is found replaced by another file (identity
  43, 7 bytes).\<close>

definition s_over :: sync where
  "s_over = after (checkpath (posix (fa_file 43 7)) s_file None ''/sync/a.txt'' None) s_file"

definition s_alias :: sync where
  "s_alias = after (checkpath (dos (fa_folder 9)) s_root None ''/sync/Program Files'' None) s_root"

text \<open>What lines 200--233 find for \<^verbatim>\<open>/sync/a.txt\<close> before and after it is tracked, for
  \<^verbatim>\<open>/sync/sub\<close> once tracked, and for \<^verbatim>\<open>/sync/sub/b.txt\<close>.\<close>

definition r_new :: resolved where
  "r_new = \<lparr>r_l = None, r_parent = Some 0, r_isroot = False, r_name = ''a.txt'',
            r_open = ''/sync/a.txt'', r_path = ''/sync/a.txt''\<rparr>"

definition r_a :: resolved where
  "r_a = \<lparr>r_l = Some 1, r_parent = Some 0, r_isroot = False, r_name = [],
          r_open = ''/sync/a.txt'', r_path = ''/sync/a.txt''\<rparr>"

definition r_sub :: resolved where
  "r_sub = \<lparr>r_l = Some 2, r_parent = Some 0, r_isroot = False, r_name = [],
            r_open = ''/sync/sub'', r_path = ''/sync/sub''\<rparr>"

definition r_b :: resolved where
  "r_b = \<lparr>r_l = None, r_parent = Some 2, r_isroot = False, r_name = ''b.txt'',
          r_open = ''/sync/sub/b.txt'', r_path = ''/sync/sub/b.txt''\<rparr>"

text \<open>A new sync with one queued notification, and the state \<^verbatim>\<open>procscanq\<close> leaves; the
  same with an entry waiting in the retry queue as well.\<close>

definition s_queued :: sync where
  "s_queued = notify s_root DIREVENTS None ''/sync/a.txt''"

definition s_swept :: sync where
  "s_swept = (case procscanq (posix (fa_file 42 10)) s_queued DIREVENTS of None \<Rightarrow> s_queued | Some s \<Rightarrow> s)"

definition s_both :: sync where
  "s_both = notify s_queued RETRY None ''/sync/b.txt''"

definition s_half :: sync where
  "s_half = (case procscanq (posix (fa_file 42 10)) s_both DIREVENTS of None \<Rightarrow> s_both | Some s \<Rightarrow> s)"


text \<open>A client in which another sync (2) already tracks a 10-byte file with identity 42 as
  node 1; a new sync (1) on \<^verbatim>\<open>/sync\<close> in that client; the file is then found at
  \<^verbatim>\<open>/sync/a.txt\<close>, which moves node 1 into the tree of the new sync; then it is found to
  have grown to 25 bytes.\<close>

definition c_other :: sync where
  "c_other = c_new\<lparr>nodes := (nodes c_new)(1 := (blank 2 FILENODE 1 0)\<lparr>lsize := 10, fsid := 42,
                                                  fsid_set := True, localname := ''a.txt''\<rparr>),
                    nnodes := 2, fsidnode := [42 \<mapsto> 1], syncs := [2]\<rparr>"

definition t_root :: sync where
  "t_root = Sync (posix fa_absent) 1 c_other ''/sync'' None 0"

definition t_moved :: sync where
  "t_moved = after (checkpath (posix (fa_file 42 10)) t_root None ''/sync/a.txt'' None) t_root"

definition t_grown :: sync where
  "t_grown = after (checkpath (posix (fa_file 42 25)) t_moved None ''/sync/a.txt'' None) t_moved"
section \<open>Frame properties of the steps\<close>

text \<open>Which fields of the state each collaborator method and each step leaves alone.\<close>

lemma upd_fields [simp]:
  "self (upd s n f) = self s"
  "state (upd s n f) = state s" "localbytes (upd s n f) = localbytes s"
  "scanseqno (upd s n f) = scanseqno s" "nnodes (upd s n f) = nnodes s"
  "notifyq (upd s n f) = notifyq s" "events (upd s n f) = events s"
  "fsidnode (upd s n f) = fsidnode s" "syncactivity (upd s n f) = syncactivity s"
  "syncadded (upd s n f) = syncadded s" "syncs (upd s n f) = syncs s"
  "nodes (upd s n f) m = (if m = n then f (nodes s n) else nodes s m)"
  by (simp_all add: upd_def)

lemma emit_fields [simp]:
  "self (emit s ev) = self s"
  "state (emit s ev) = state s" "localbytes (emit s ev) = localbytes s"
  "scanseqno (emit s ev) = scanseqno s" "nnodes (emit s ev) = nnodes s"
  "notifyq (emit s ev) = notifyq s" "events (emit s ev) = events s @ [ev]"
  "fsidnode (emit s ev) = fsidnode s" "nodes (emit s ev) = nodes s"
  by (simp_all add: emit_def)

lemma notify_fields [simp]:
  "self (notify s q l p) = self s"
  "state (notify s q l p) = state s" "localbytes (notify s q l p) = localbytes s"
  "scanseqno (notify s q l p) = scanseqno s" "nnodes (notify s q l p) = nnodes s"
  "events (notify s q l p) = events s"
  "fsidnode (notify s q l p) = fsidnode s" "nodes (notify s q l p) = nodes s"
  by (simp_all add: notify_def)

lemma setnotseen_fields [simp]:
  "self (setnotseen s n v) = self s"
  "owner (nodes (setnotseen s n v) m) = owner (nodes s m)"
  "state (setnotseen s n v) = state s" "localbytes (setnotseen s n v) = localbytes s"
  "scanseqno (setnotseen s n v) = scanseqno s" "nnodes (setnotseen s n v) = nnodes s"
  "notifyq (setnotseen s n v) = notifyq s" "events (setnotseen s n v) = events s"
  "fsidnode (setnotseen s n v) = fsidnode s"
  "ltype (nodes (setnotseen s n v) m) = ltype (nodes s m)"
  "lsize (nodes (setnotseen s n v) m) = lsize (nodes s m)"
  by (simp_all add: setnotseen_def)

lemma stopxfer_fields [simp]:
  "self (stopxfer s n) = self s"
  "owner (nodes (stopxfer s n) m) = owner (nodes s m)"
  "state (stopxfer s n) = state s" "localbytes (stopxfer s n) = localbytes s"
  "scanseqno (stopxfer s n) = scanseqno s" "nnodes (stopxfer s n) = nnodes s"
  "notifyq (stopxfer s n) = notifyq s" "events (stopxfer s n) = events s"
  "ltype (nodes (stopxfer s n) m) = ltype (nodes s m)"
  "lsize (nodes (stopxfer s n) m) = lsize (nodes s m)"
  by (simp_all add: stopxfer_def)

lemma setfsid_fields [simp]:
  "self (setfsid s n h) = self s"
  "owner (nodes (setfsid s n h) m) = owner (nodes s m)"
  "state (setfsid s n h) = state s" "localbytes (setfsid s n h) = localbytes s"
  "scanseqno (setfsid s n h) = scanseqno s" "nnodes (setfsid s n h) = nnodes s"
  "notifyq (setfsid s n h) = notifyq s" "events (setfsid s n h) = events s"
  "ltype (nodes (setfsid s n h) m) = ltype (nodes s m)"
  "lsize (nodes (setfsid s n h) m) = lsize (nodes s m)"
  by (simp_all add: setfsid_def Let_def split: option.splits)

lemma setnameparent_fields [simp]:
  "self (setnameparent e s n p lp) = self s"
  "owner (nodes (setnameparent e s n p lp) m) = owner (nodes s m)"
  "state (setnameparent e s n p lp) = state s" "localbytes (setnameparent e s n p lp) = localbytes s"
  "scanseqno (setnameparent e s n p lp) = scanseqno s" "nnodes (setnameparent e s n p lp) = nnodes s"
  "notifyq (setnameparent e s n p lp) = notifyq s" "events (setnameparent e s n p lp) = events s"
  "fsidnode (setnameparent e s n p lp) = fsidnode s"
  "ltype (nodes (setnameparent e s n p lp) m) = ltype (nodes s m)"
  "lsize (nodes (setnameparent e s n p lp) m) = lsize (nodes s m)"
  by (simp_all add: setnameparent_def Let_def split: option.splits)

lemma init_fields [simp]:
  "self (init e s n t p cn cp) = self s"
  "owner (nodes (init e s n t p cn cp) m) = (if m = n then self s else owner (nodes s m))"
  "state (init e s n t p cn cp) = state s" "localbytes (init e s n t p cn cp) = localbytes s"
  "scanseqno (init e s n t p cn cp) = scanseqno s" "nnodes (init e s n t p cn cp) = nnodes s"
  "notifyq (init e s n t p cn cp) = notifyq s" "events (init e s n t p cn cp) = events s"
  "fsidnode (init e s n t p cn cp) = fsidnode s"
  "ltype (nodes (init e s n t p cn cp) m) = (if m = n then t else ltype (nodes s m))"
  "lsize (nodes (init e s n t p cn cp) m) = (if m = n then - 1 else lsize (nodes s m))"
  by (simp_all add: init_def Let_def blank_def split: option.splits)

lemma changestate_fields [simp]:
  "self (changestate s st) = self s"
  "localbytes (changestate s st) = localbytes s"
  "scanseqno (changestate s st) = scanseqno s" "nnodes (changestate s st) = nnodes s"
  "notifyq (changestate s st) = notifyq s" 
  "fsidnode (changestate s st) = fsidnode s" "nodes (changestate s st) = nodes s"
  by (simp_all add: changestate_def)

lemma scan_foldl:
  "P s \<Longrightarrow> (\<And>s l p. P s \<Longrightarrow> P (notify s DIREVENTS l p)) \<Longrightarrow>
   P (foldl (\<lambda>s' x. case g x of (ok, ln) \<Rightarrow> if ok then notify s' DIREVENTS None (f ln) else s') s names)"
  by (induction names arbitrary: s) (auto split: prod.splits)

lemma scan_fields [simp]:
  "self (snd (scan e s lp)) = self s"
  "state (snd (scan e s lp)) = state s" "localbytes (snd (scan e s lp)) = localbytes s"
  "scanseqno (snd (scan e s lp)) = scanseqno s" "nnodes (snd (scan e s lp)) = nnodes s"
  "events (snd (scan e s lp)) = events s"
  "fsidnode (snd (scan e s lp)) = fsidnode s" "nodes (snd (scan e s lp)) = nodes s"
  unfolding scan_def
  by (auto split: option.splits intro!: scan_foldl [where P = "\<lambda>x. self x = self s"]
     scan_foldl [where P = "\<lambda>x. state x = state s"]
     scan_foldl [where P = "\<lambda>x. localbytes x = localbytes s"]
     scan_foldl [where P = "\<lambda>x. scanseqno x = scanseqno s"]
     scan_foldl [where P = "\<lambda>x. nnodes x = nnodes s"]
     scan_foldl [where P = "\<lambda>x. events x = events s"]
     scan_foldl [where P = "\<lambda>x. fsidnode x = fsidnode s"]
     scan_foldl [where P = "\<lambda>x. nodes x = nodes s"])

lemma genfingerprint_fields [simp]:
  "self (snd (genfingerprint s n fa)) = self s"
  "owner (nodes (snd (genfingerprint s n fa)) m) = owner (nodes s m)"
  "state (snd (genfingerprint s n fa)) = state s" "localbytes (snd (genfingerprint s n fa)) = localbytes s"
  "scanseqno (snd (genfingerprint s n fa)) = scanseqno s" "nnodes (snd (genfingerprint s n fa)) = nnodes s"
  "notifyq (snd (genfingerprint s n fa)) = notifyq s" "events (snd (genfingerprint s n fa)) = events s"
  "fsidnode (snd (genfingerprint s n fa)) = fsidnode s"
  "ltype (nodes (snd (genfingerprint s n fa)) m) = ltype (nodes s m)"
  "lsize (nodes (snd (genfingerprint s n fa)) m) = (if m = n then fa_size fa else lsize (nodes s m))"
  by (simp_all add: genfingerprint_def)

section \<open>The sweep number is only changed by \<^verbatim>\<open>procscanq\<close>\<close>

text \<open>No step of \<^verbatim>\<open>checkpath\<close> writes \<^verbatim>\<open>scanseqno\<close>, so the loop of \<^verbatim>\<open>procscanq\<close> does not
  either.\<close>

lemma refresh_scanseqno [simp]: "scanseqno (snd (refresh s n fa)) = scanseqno s"
  by (simp add: refresh_def Let_def)

lemma addormove_scanseqno [simp]: "scanseqno (snd (snd (addormove e s r fa))) = scanseqno s"
  by (simp add: addormove_def Let_def split: option.splits)

lemma track_scanseqno [simp]: "scanseqno (snd (snd (track e s r fa))) = scanseqno s"
proof (cases "r_l r")
  case None
  then show ?thesis by (simp add: track_def)
next
  case (Some n)
  obtain l1 s1 where rf: "refresh s n fa = (l1, s1)" by (cases "refresh s n fa")
  have "scanseqno s1 = scanseqno s" using refresh_scanseqno [of s n fa] rf by simp
  then show ?thesis using Some rf by (cases l1) (simp_all add: track_def)
qed

lemma bykind_scanseqno [simp]: "scanseqno (snd (snd (bykind e s r fa l nn))) = scanseqno s"
proof (cases l)
  case None
  then show ?thesis by (simp add: bykind_def)
next
  case (Some n)
  obtain ch s2 where g: "genfingerprint (if 0 < sint (lsize (nodes s n))
        then s\<lparr>localbytes := localbytes s - lsize (nodes s n)\<rparr> else s) n fa = (ch, s2)"
    by (cases "genfingerprint (if 0 < sint (lsize (nodes s n))
        then s\<lparr>localbytes := localbytes s - lsize (nodes s n)\<rparr> else s) n fa")
  have "scanseqno s2 = scanseqno s"
    using genfingerprint_fields(5) [of "(if 0 < sint (lsize (nodes s n))
        then s\<lparr>localbytes := localbytes s - lsize (nodes s n)\<rparr> else s)" n fa] g by (simp split: if_splits)
  then show ?thesis using Some g by (simp add: bykind_def Let_def)
qed

lemma examine_scanseqno [simp]: "scanseqno (snd (examine e s ll lp r)) = scanseqno s"
proof (cases "opened (fopen e (r_open r))")
  case True
  obtain l1 nn s1 where t: "track e s r (fopen e (r_open r)) = (l1, nn, s1)"
    by (cases "track e s r (fopen e (r_open r))")
  obtain l2 ch s2 where b: "bykind e s1 r (fopen e (r_open r)) l1 nn = (l2, ch, s2)"
    by (cases "bykind e s1 r (fopen e (r_open r)) l1 nn")
  have "scanseqno s1 = scanseqno s" using track_scanseqno [of e s r "fopen e (r_open r)"] t by simp
  moreover have "scanseqno s2 = scanseqno s1"
    using bykind_scanseqno [of e s1 r "fopen e (r_open r)" l1 nn] b by simp
  ultimately show ?thesis using True t b
    by (simp add: examine_def Let_def split: option.splits)
next
  case False
  then show ?thesis by (simp add: examine_def Let_def split: option.splits)
qed

lemma checkpath_scanseqno:
  "checkpath e s l lp ln = Some (r, s') \<Longrightarrow> scanseqno s' = scanseqno s"
proof -
  assume a: "checkpath e s l lp ln = Some (r, s')"
  show ?thesis
  proof (cases "resolve e s l lp ln")
    case None
    with a show ?thesis by (simp add: checkpath_def)
  next
    case (Some x)
    show ?thesis
    proof (cases x)
      case None
      with a Some show ?thesis by (simp add: checkpath_def)
    next
      case (Some rr)
      with a \<open>resolve e s l lp ln = Some x\<close> have "examine e s l lp rr = (r, s')"
        by (simp add: checkpath_def)
      then show ?thesis using examine_scanseqno [of e s l lp rr] by simp
    qed
  qed
qed

lemma drain_scanseqno:
  assumes "drain e q s = Some s'"
  shows "scanseqno s' = scanseqno s"
proof (rule drain.raw_induct [where P = "\<lambda>e q s s'. scanseqno s' = scanseqno s", OF _ assms], goal_cases)
  case (1 drain e q s s')
  show ?case
  proof (cases "notifyq s q")
    case Nil
    with 1(2) show ?thesis by simp
  next
    case (Cons front rest)
    with 1(2) obtain l s1 where cp: "checkpath e s (fst front) (snd front) None = Some (l, s1)"
      by (auto split: option.splits)
    let ?s2 = "s1\<lparr>notifyq := (notifyq s1)(q := tl (notifyq s1 q))\<rparr>"
    have *: "scanseqno ?s2 = scanseqno s" using checkpath_scanseqno [OF cp] by simp
    from 1(2) Cons cp have "Some ?s2 = Some s' \<or> drain e q ?s2 = Some s'"
      by (simp add: Let_def split: if_splits)
    then show ?thesis using * 1(1) by auto
  qed
qed

section \<open>What the resolution phase yields\<close>

text \<open>A call that gets past lines 200--233 continues with \<open>examine\<close>; without a named last
  component the resolved data come from the path walk and an accepting predicate.\<close>

lemma checkpath_resolved:
  "resolve e s l lp ln = Some (Some r) \<Longrightarrow> checkpath e s l lp ln = Some (examine e s l lp r)"
  by (simp add: checkpath_def)

lemma resolve_walked:
  assumes "resolve e s l lp None = Some (Some r)"
  obtains tmppath l' parent' newname newname' where
    "fullpath e s l lp = Some tmppath"
    "localnodebypath e s l lp = Some (l', parent', newname)"
    "l' \<noteq> None \<or> newname \<noteq> []"
    "sync_syncable e (local2name e newname) tmppath newname = (True, newname')"
    "r = \<lparr>r_l = l', r_parent = parent', r_isroot = (l' = Some localroot \<and> newname' = []),
          r_name = newname', r_open = tmppath, r_path = local2path e tmppath\<rparr>"
proof -
  from assms obtain tmppath where fp: "fullpath e s l lp = Some tmppath"
    by (cases "fullpath e s l lp") (simp_all add: resolve_def)
  from assms fp obtain w where w: "localnodebypath e s l lp = Some w"
    by (cases "localnodebypath e s l lp") (simp_all add: resolve_def)
  obtain l' parent' newname where t: "w = (l', parent', newname)" by (cases w)
  obtain ok newname' where sy: "sync_syncable e (local2name e newname) tmppath newname = (ok, newname')"
    by (cases "sync_syncable e (local2name e newname) tmppath newname")
  from assms fp w t sy have v: "l' \<noteq> None \<or> newname \<noteq> []"
    by (auto simp: resolve_def split: if_splits)
  from assms fp w t sy v have ok: "ok"
    by (auto simp: resolve_def split: if_splits)
  from assms fp w t sy v ok have
    "r = \<lparr>r_l = l', r_parent = parent', r_isroot = (l' = Some localroot \<and> newname' = []),
          r_name = newname', r_open = tmppath, r_path = local2path e tmppath\<rparr>"
    by (auto simp: resolve_def split: if_splits)
  moreover from sy ok have "sync_syncable e (local2name e newname) tmppath newname = (True, newname')"
    by simp
  moreover from w t have "localnodebypath e s l lp = Some (l', parent', newname)" by simp
  ultimately show ?thesis using fp v by (intro that [of tmppath l' parent' newname newname'])
qed

lemma resolve_isroot:
  assumes "resolve e s l lp ln = Some (Some r)" and "r_isroot r"
  shows "r_l r = Some localroot"
proof (cases ln)
  case None
  with assms(1) have "resolve e s l lp None = Some (Some r)" by simp
  then show ?thesis using assms(2) by (elim resolve_walked) simp
next
  case (Some a)
  with assms show ?thesis by (auto simp: resolve_def)
qed

section \<open>Kinds, sizes and the byte total\<close>

text \<open>The byte total follows the positive sizes of the FILE-kind nodes of the sync through
  every step; where every such node has a fingerprint these are the sizes. All sums are
  sums of 64-bit words, so the steps may wrap around.\<close>

lemma posbytes_Suc [simp]: "posbytes me h (Suc k) = posbytes me h k + posz me (h k)"
  by (simp add: posbytes_def)

lemma posbytes_0 [simp]: "posbytes me h 0 = 0"
  by (simp add: posbytes_def)

lemma posbytes_cong:
  "(\<And>n. n < k \<Longrightarrow> posz me (h' n) = posz me (h n)) \<Longrightarrow> posbytes me h' k = posbytes me h k"
  by (induction k) simp_all

lemma posbytes_change:
  "j < k \<Longrightarrow> (\<And>n. n < k \<Longrightarrow> n \<noteq> j \<Longrightarrow> posz me (h' n) = posz me (h n)) \<Longrightarrow>
   posbytes me h' k = posbytes me h k - posz me (h j) + posz me (h' j)"
proof (induction k)
  case 0
  then show ?case by simp
next
  case (Suc k)
  show ?case
  proof (cases "j = k")
    case True
    then have "posbytes me h' k = posbytes me h k" using Suc.prems(2) by (intro posbytes_cong) simp
    then show ?thesis using True by simp
  next
    case False
    then have "j < k" using Suc.prems(1) by simp
    then have "posbytes me h' k = posbytes me h k - posz me (h j) + posz me (h' j)"
      using Suc.prems(2) by (intro Suc.IH) simp_all
    moreover have "posz me (h' k) = posz me (h k)" using False Suc.prems(2) by simp
    ultimately show ?thesis by simp
  qed
qed

lemma sint_not_pos: "0 \<le> sint w \<Longrightarrow> \<not> 0 < sint w \<Longrightarrow> w = 0"
proof -
  assume "0 \<le> sint w" "\<not> 0 < sint w"
  then have "sint w = 0" by simp
  then show ?thesis by (simp only: signed_eq_0_iff)
qed

lemma filebytes_posbytes: "sized s \<Longrightarrow> filebytes s = posbytes (self s) (nodes s) (nnodes s)"
proof -
  assume "sized s"
  then have "map (\<lambda>n. if owner (nodes s n) = self s \<and> ltype (nodes s n) = FILENODE
                         then lsize (nodes s n) else 0) [0..<nnodes s]
        = map (\<lambda>n. posz (self s) (nodes s n)) [0..<nnodes s]"
    by (intro map_cong) (auto simp: sized_def posz_def dest: sint_not_pos)
  then show ?thesis unfolding filebytes_def posbytes_def by (rule arg_cong [where f = sum_list])
qed

lemma same_sizes_refl [simp]: "same_sizes s s"
  by (simp add: same_sizes_def)

lemma same_sizes_trans: "same_sizes s s' \<Longrightarrow> same_sizes s' s'' \<Longrightarrow> same_sizes s s''"
  by (simp add: same_sizes_def)

lemma same_sizes_added: "same_sizes s s' \<Longrightarrow> added s' t s'' \<Longrightarrow> added s t s''"
  by (simp add: same_sizes_def added_def)

lemma refresh_sizes:
  "refresh s n fa = (l1, s1) \<Longrightarrow> same_sizes s s1 \<and> (l1 = None \<or> l1 = Some n)"
  by (auto simp: refresh_def Let_def same_sizes_def split: if_splits)

lemma addormove_sizes:
  "addormove e s r fa = (l1, nn, s1) \<Longrightarrow>
     (same_sizes s s1 \<and> \<not> nn \<and> l1 = None) \<or> (added s (fa_type fa) s1 \<and> nn \<and> l1 = Some (nnodes s))"
  by (auto simp: addormove_def Let_def same_sizes_def added_def split: option.splits if_splits)

lemma track_sizes:
  assumes "track e s r fa = (l1, nn, s1)"
  shows "(same_sizes s s1 \<and> \<not> nn \<and> (l1 = None \<or> l1 = r_l r)) \<or>
         (added s (fa_type fa) s1 \<and> nn \<and> \<not> r_isroot r \<and> l1 = Some (nnodes s))"
proof (cases "r_isroot r")
  case True
  with assms show ?thesis by (auto simp: track_def)
next
  case False
  obtain l0 s0 where c: "(case r_l r of None \<Rightarrow> (None, s) | Some n \<Rightarrow> refresh s n fa) = (l0, s0)"
    by (cases "case r_l r of None \<Rightarrow> (None, s) | Some n \<Rightarrow> refresh s n fa")
  then have s0: "same_sizes s s0 \<and> (l0 = None \<or> l0 = r_l r)"
    by (cases "r_l r") (auto dest: refresh_sizes)
  show ?thesis
  proof (cases l0)
    case None
    with assms False c have "addormove e s0 r fa = (l1, nn, s1)" by (simp add: track_def)
    from addormove_sizes [OF this] s0 False show ?thesis
      by (auto intro: same_sizes_trans same_sizes_added simp: same_sizes_def)
  next
    case (Some n)
    with assms False c have "l1 = Some n" "\<not> nn" "s1 = s0" by (simp_all add: track_def)
    with s0 Some show ?thesis by auto
  qed
qed

lemma posz_eq:
  "owner x' = owner x \<Longrightarrow> ltype x' = ltype x \<Longrightarrow> lsize x' = lsize x \<Longrightarrow> posz me x' = posz me x"
  by (simp add: posz_def)

lemma same_sizes_posbytes:
  "same_sizes s s' \<Longrightarrow> posbytes (self s') (nodes s') (nnodes s') = posbytes (self s) (nodes s) (nnodes s)"
  by (auto simp: same_sizes_def intro!: posbytes_cong posz_eq)

lemma added_posbytes:
  "added s t s' \<Longrightarrow> posbytes (self s') (nodes s') (nnodes s') = posbytes (self s) (nodes s) (nnodes s)"
proof -
  assume a: "added s t s'"
  then have "posbytes (self s) (nodes s') (nnodes s) = posbytes (self s) (nodes s) (nnodes s)"
    by (intro posbytes_cong posz_eq) (simp_all add: added_def)
  moreover have "posz (self s) (nodes s' (nnodes s)) = 0" using a by (simp add: added_def posz_def)
  ultimately show ?thesis using a by (simp add: added_def)
qed

lemma bykind_self [simp]: "self (snd (snd (bykind e s r fa l nn))) = self s"
proof (cases l)
  case None
  then show ?thesis by (simp add: bykind_def)
next
  case (Some n)
  obtain ch s2 where g: "genfingerprint (if 0 < sint (lsize (nodes s n))
        then s\<lparr>localbytes := localbytes s - lsize (nodes s n)\<rparr> else s) n fa = (ch, s2)"
    by (cases "genfingerprint (if 0 < sint (lsize (nodes s n))
        then s\<lparr>localbytes := localbytes s - lsize (nodes s n)\<rparr> else s) n fa")
  have "self s2 = self s"
    using genfingerprint_fields(1) [of "(if 0 < sint (lsize (nodes s n))
        then s\<lparr>localbytes := localbytes s - lsize (nodes s n)\<rparr> else s)" n fa] g by (simp split: if_splits)
  then show ?thesis using Some g by (simp add: bykind_def Let_def)
qed

lemma bykind_pinv:
  assumes "bykind e s r fa l nn = (l2, ch, s2)" and "pinv s" and "mine s l"
  shows "pinv s2 \<and> nnodes s2 = nnodes s"
proof (cases l)
  case None
  with assms show ?thesis by (simp add: bykind_def)
next
  case (Some n)
  with assms(3) have n: "n < nnodes s" and o: "owner (nodes s n) = self s" by (simp_all add: mine_def)
  have sf: "self s2 = self s" using bykind_self [of e s r fa l nn] assms(1) by simp
  show ?thesis
  proof (cases "ltype (nodes s n) = FOLDERNODE \<or> r_isroot r")
    case True
    with assms(1) Some have "localbytes s2 = localbytes s \<and> nodes s2 = nodes s \<and> nnodes s2 = nnodes s"
      by (auto simp: bykind_def split: if_splits)
    with assms(2) sf show ?thesis by (simp add: pinv_def)
  next
    case False
    then have f: "ltype (nodes s n) = FILENODE" "\<not> r_isroot r" by (auto intro: nodetype.exhaust)
    let ?h' = "(nodes s)(n := (nodes s n)\<lparr>lsize := fa_size fa, mtime := fa_mtime fa, crc := fa_crc fa\<rparr>)"
    from assms(1) Some f o have
      nn: "nnodes s2 = nnodes s" and
      h: "nodes s2 = ?h'" and
      b: "localbytes s2 = localbytes s - posz (self s) (nodes s n) + posz (self s) (?h' n)"
      by (auto simp: bykind_def Let_def genfingerprint_def upd_def emit_def posz_def split: if_splits)
    have "posbytes (self s) ?h' (nnodes s)
          = posbytes (self s) (nodes s) (nnodes s) - posz (self s) (nodes s n) + posz (self s) (?h' n)"
      using n by (intro posbytes_change) simp_all
    with nn h b sf assms(2) show ?thesis by (simp add: pinv_def)
  qed
qed

lemma bykind_sizes:
  assumes "bykind e s r fa l nn = (l2, ch, s2)"
  shows "ltype (nodes s2 m) = ltype (nodes s m)"
    and "lsize (nodes s2 m) = 
          (if l = Some m \<and> ltype (nodes s m) = FILENODE \<and> \<not> r_isroot r then fa_size fa else lsize (nodes s m))"
    and "owner (nodes s2 m) = owner (nodes s m)"
proof -
  have "ltype (nodes s2 m) = ltype (nodes s m) \<and> owner (nodes s2 m) = owner (nodes s m) \<and> lsize (nodes s2 m) = 
          (if l = Some m \<and> ltype (nodes s m) = FILENODE \<and> \<not> r_isroot r then fa_size fa else lsize (nodes s m))"
  proof (cases l)
    case None
    with assms show ?thesis by (simp add: bykind_def)
  next
    case (Some n)
    show ?thesis
    proof (cases "ltype (nodes s n) = FOLDERNODE \<or> r_isroot r")
      case True
      with assms Some have "nodes s2 = nodes s"
        by (auto simp: bykind_def split: if_splits)
      with True Some show ?thesis by auto
    next
      case False
      then have f: "ltype (nodes s n) = FILENODE" "\<not> r_isroot r" by (auto intro: nodetype.exhaust)
      from assms Some f have
        "nodes s2 = (nodes s)(n := (nodes s n)\<lparr>lsize := fa_size fa, mtime := fa_mtime fa, crc := fa_crc fa\<rparr>)"
        by (auto simp: bykind_def Let_def genfingerprint_def upd_def emit_def split: if_splits)
      with Some f show ?thesis by auto
    qed
  qed
  then show "ltype (nodes s2 m) = ltype (nodes s m)"
    and "lsize (nodes s2 m) = 
          (if l = Some m \<and> ltype (nodes s m) = FILENODE \<and> \<not> r_isroot r then fa_size fa else lsize (nodes s m))"
    and "owner (nodes s2 m) = owner (nodes s m)"
    by simp_all
qed

lemma sizedD:
  "sized s \<Longrightarrow> n < nnodes s \<Longrightarrow> owner (nodes s n) = self s \<Longrightarrow> ltype (nodes s n) = FILENODE \<Longrightarrow>
   0 \<le> sint (lsize (nodes s n))"
  by (simp add: sized_def)

lemma sizedI:
  "(\<And>n. n < nnodes s \<Longrightarrow> owner (nodes s n) = self s \<Longrightarrow> ltype (nodes s n) = FILENODE \<Longrightarrow>
        0 \<le> sint (lsize (nodes s n))) \<Longrightarrow> sized s"
  by (simp add: sized_def)

lemma track_pinv:
  assumes t: "track e s r fa = (l1, nn, s1)" and p: "pinv s" and lv: "mine s (r_l r)"
  shows "pinv s1 \<and> mine s1 l1"
proof -
  from track_sizes [OF t] consider
    (same) "same_sizes s s1" "l1 = None \<or> l1 = r_l r" |
    (new) "added s (fa_type fa) s1" "l1 = Some (nnodes s)" by blast
  then show ?thesis
  proof cases
  case a: same
  from a(1) p have "pinv s1" using same_sizes_posbytes [OF a(1)] by (simp add: pinv_def same_sizes_def)
  moreover from a lv have "mine s1 l1" by (auto simp: mine_def same_sizes_def split: option.splits)
  ultimately show ?thesis by simp
next
  case a: new
  from a(1) p have "pinv s1" using added_posbytes [OF a(1)] by (simp add: pinv_def added_def)
  moreover from a have "mine s1 l1" by (simp add: mine_def added_def)
  ultimately show ?thesis by simp
qed
qed

lemma examine_opened_inv:
  assumes ex: "examine e s ll lp r = (res, s')"
    and op: "opened (fopen e (r_open r))"
    and sz: "0 \<le> sint (fa_size (fopen e (r_open r)))"
    and p: "pinv s" and z: "sized s" and lv: "mine s (r_l r)"
  shows "pinv s' \<and> sized s'"
proof -
  let ?fa = "fopen e (r_open r)"
  obtain l1 nn s1 where t: "track e s r ?fa = (l1, nn, s1)" by (cases "track e s r ?fa")
  obtain l2 ch s2 where b: "bykind e s1 r ?fa l1 nn = (l2, ch, s2)" by (cases "bykind e s1 r ?fa l1 nn")
  from ex op t b have s': "nodes s' = nodes s2" "nnodes s' = nnodes s2" "localbytes s' = localbytes s2"
    "self s' = self s2"
    by (auto simp: examine_def Let_def split: option.splits if_splits)
  from track_pinv [OF t p lv] have p1: "pinv s1" and lv1: "mine s1 l1" by simp_all
  from bykind_pinv [OF b p1 lv1] have p2: "pinv s2" and n2: "nnodes s2 = nnodes s1"
    by simp_all
  have sf2: "self s2 = self s1" using bykind_self [of e s1 r ?fa l1 nn] b by simp
  have "sized s2"
  proof (rule sizedI)
    fix m assume m: "m < nnodes s2" and o: "owner (nodes s2 m) = self s2"
      and f: "ltype (nodes s2 m) = FILENODE"
    from f have f1: "ltype (nodes s1 m) = FILENODE" using bykind_sizes(1) [OF b] by simp
    from o sf2 have o1: "owner (nodes s1 m) = self s1" using bykind_sizes(3) [OF b, of m] by simp
    from track_sizes [OF t] consider
      (same) "same_sizes s s1" |
      (new) "added s (fa_type ?fa) s1" "nn" "\<not> r_isroot r" "l1 = Some (nnodes s)" by blast
    then show "0 \<le> sint (lsize (nodes s2 m))"
    proof cases
      case same
      with m n2 f1 o1 z have "0 \<le> sint (lsize (nodes s1 m))" by (auto simp: same_sizes_def dest: sizedD)
      then show ?thesis using bykind_sizes(2) [OF b, of m] sz by (simp split: if_splits)
    next
      case a: new
      show ?thesis
      proof (cases "m = nnodes s")
        case True
        with a f1 show ?thesis using bykind_sizes(2) [OF b, of m] sz by simp
      next
        case False
        with m n2 a have "m < nnodes s" by (simp add: added_def)
        with False f1 o1 a z have "0 \<le> sint (lsize (nodes s1 m))" by (auto simp: added_def dest: sizedD)
        then show ?thesis using bykind_sizes(2) [OF b, of m] sz by (simp split: if_splits)
      qed
    qed
  qed
  with p2 s' show ?thesis by (simp add: pinv_def sized_def)
qed

lemma examine_failed_inv:
  assumes ex: "examine e s ll lp r = (res, s')"
    and op: "\<not> opened (fopen e (r_open r))"
    and p: "pinv s" and z: "sized s"
  shows "pinv s' \<and> sized s'"
proof -
  from ex op have "same_sizes s s'"
    by (auto simp: examine_def Let_def same_sizes_def split: option.splits if_splits)
  with p z show ?thesis
    using same_sizes_posbytes [OF \<open>same_sizes s s'\<close>]
    by (simp add: pinv_def sized_def same_sizes_def)
qed

section \<open>The walk stays among the nodes of the sync\<close>

text \<open>In a tree that is the sync's own, the walk from a node of the sync only meets nodes
  of the sync.\<close>

lemma ran_upd_sub: "ran (m(k \<mapsto> v)) \<subseteq> insert v (ran m)"
  by (auto simp: ran_def)

lemma ran_del_sub: "ran (m(k := None)) \<subseteq> ran m"
  by (auto simp: ran_def split: if_splits)

lemma kids_eq: "children x' = children x \<Longrightarrow> schildren x' = schildren x \<Longrightarrow> kids x' = kids x"
  by (simp add: kids_def)

lemma findchild_kids: "findchild x t = Some c \<Longrightarrow> c \<in> kids x"
  by (auto simp: findchild_def kids_def ran_def split: option.splits)

lemma mine_None [simp]: "mine s None"
  by (simp add: mine_def)

lemma own_tree_kid:
  "own_tree s \<Longrightarrow> mine s (Some n) \<Longrightarrow> c \<in> kids (nodes s n) \<Longrightarrow> mine s (Some c)"
  by (auto simp: own_tree_def mine_def)

lemma walk_mine_aux:
  assumes "walk sep h lp l ptr nptr = Some y"
  shows "h = nodes s \<longrightarrow> own_tree s \<longrightarrow> mine s (Some l) \<longrightarrow> mine s (fst y)"
proof (rule walk.raw_induct
    [where P = "\<lambda>sep h lp l ptr nptr y. h = nodes s \<longrightarrow> own_tree s \<longrightarrow> mine s (Some l) \<longrightarrow> mine s (fst y)",
      OF _ assms], goal_cases)
  case (1 walk sep h lp l ptr nptr y)
  show ?case
  proof (intro impI)
    assume hs: "h = nodes s" and ok: "own_tree s" and l: "mine s (Some l)"
    show "mine s (fst y)"
    proof (cases "nptr = length lp \<or> take (length sep) (drop nptr lp) = sep")
      case True
      show ?thesis
      proof (cases "findchild (h l) (take (nptr - ptr) (drop ptr lp))")
        case None
        with True 1(2) show ?thesis by auto
      next
        case (Some c)
        with hs have "c \<in> kids (nodes s l)" by (auto dest: findchild_kids)
        then have c: "mine s (Some c)" by (rule own_tree_kid [OF ok l])
        show ?thesis
        proof (cases "nptr = length lp")
          case True
          with Some 1(2) c show ?thesis by auto
        next
          case False
          with True Some 1(2) have "walk sep h lp c (nptr + length sep) (nptr + length sep) = Some y"
            by simp
          from 1(1) [OF this] hs ok c show ?thesis by simp
        qed
      qed
    next
      case False
      with 1(2) have "walk sep h lp l ptr (nptr + length sep) = Some y" by simp
      from 1(1) [OF this] hs ok l show ?thesis by simp
    qed
  qed
qed

lemma localnodebypath_mine:
  assumes "localnodebypath e s l lp = Some (res, par, rp)" and "own_tree s" and "mine s l"
  shows "mine s res"
proof (cases l)
  case None
  show ?thesis
  proof (cases "take (length (localname (nodes s localroot))) lp \<noteq> localname (nodes s localroot)
             \<or> take (length (localseparator e)) (drop (length (localname (nodes s localroot))) lp) \<noteq> localseparator e")
    case True
    with assms(1) None have "res = None" by (auto simp: localnodebypath_def Let_def)
    then show ?thesis by simp
  next
    case False
    with assms(1) None have "walk (localseparator e) (nodes s) lp localroot
          (length (localname (nodes s localroot)) + length (localseparator e))
          (length (localname (nodes s localroot)) + length (localseparator e)) = Some (res, par, rp)"
      by (auto simp: localnodebypath_def Let_def)
    from walk_mine_aux [OF this, of s] assms(2) show ?thesis by (simp add: own_tree_def)
  qed
next
  case (Some n)
  with assms(1) have "walk (localseparator e) (nodes s) lp n 0 0 = Some (res, par, rp)"
    by (simp add: localnodebypath_def Let_def)
  from walk_mine_aux [OF this, of s] assms(2,3) Some show ?thesis by simp
qed

lemma resolve_mine:
  assumes "resolve e s l lp ln = Some (Some r)" and "own_tree s" and "mine s l"
  shows "mine s (r_l r)"
proof (cases ln)
  case None
  with assms(1) have "resolve e s l lp None = Some (Some r)" by simp
  then show ?thesis
  proof (rule resolve_walked)
    fix tmppath l' parent' newname newname'
    assume "localnodebypath e s l lp = Some (l', parent', newname)"
      and "r = \<lparr>r_l = l', r_parent = parent', r_isroot = (l' = Some localroot \<and> newname' = []),
          r_name = newname', r_open = tmppath, r_path = local2path e tmppath\<rparr>"
    then show ?thesis using localnodebypath_mine [OF _ assms(2,3)] by simp
  qed
next
  case (Some a)
  with assms(1) show ?thesis by (auto simp: resolve_def)
qed

section \<open>The state of the controller\<close>

text \<open>Line 300 needs a matched root that is not of FOLDER kind.\<close>

lemma track_state [simp]: "state (snd (snd (track e s r fa))) = state s"
proof (cases "r_l r")
  case None
  then show ?thesis by (simp add: track_def addormove_def Let_def split: option.splits)
next
  case (Some n)
  obtain l1 s1 where rf: "refresh s n fa = (l1, s1)" by (cases "refresh s n fa")
  have "state s1 = state s" using rf by (auto simp: refresh_def Let_def split: if_splits)
  then show ?thesis using Some rf
    by (cases l1) (simp_all add: track_def addormove_def Let_def split: option.splits)
qed

lemma examine_keeps_state:
  assumes "r_isroot r \<longrightarrow> r_l r = Some localroot" and "ltype (nodes s localroot) = FOLDERNODE"
  shows "state (snd (examine e s ll lp r)) = state s"
proof (cases "opened (fopen e (r_open r))")
  case False
  then show ?thesis by (simp add: examine_def Let_def split: option.splits)
next
  case True
  let ?fa = "fopen e (r_open r)"
  obtain l1 nn s1 where t: "track e s r ?fa = (l1, nn, s1)" by (cases "track e s r ?fa")
  obtain l2 ch s2 where b: "bykind e s1 r ?fa l1 nn = (l2, ch, s2)" by (cases "bykind e s1 r ?fa l1 nn")
  have s1: "state s1 = state s" using track_state [of e s r ?fa] t by simp
  have "state s2 = state s1"
  proof (cases "r_isroot r")
    case True
    with assms t have "l1 = Some localroot" "s1 = s" "\<not> nn" by (simp_all add: track_def)
    with b assms(2) show ?thesis by (simp add: bykind_def)
  next
    case False
    obtain ch' s2' where g: "genfingerprint (if 0 < sint (lsize (nodes s1 (the l1)))
        then s1\<lparr>localbytes := localbytes s1 - lsize (nodes s1 (the l1))\<rparr> else s1) (the l1) ?fa = (ch', s2')"
      by (cases "genfingerprint (if 0 < sint (lsize (nodes s1 (the l1)))
        then s1\<lparr>localbytes := localbytes s1 - lsize (nodes s1 (the l1))\<rparr> else s1) (the l1) ?fa")
    then have "state s2' = state s1"
      by (auto simp: genfingerprint_def split: if_splits)
    with b False g show ?thesis
      by (cases l1) (auto simp: bykind_def Let_def split: if_splits)
  qed
  with s1 True t b show ?thesis
    by (simp add: examine_def Let_def split: option.splits)
qed

lemma checkpath_keeps_state:
  assumes "checkpath e s l lp ln = Some (res, s')" and "ltype (nodes s localroot) = FOLDERNODE"
  shows "state s' = state s"
proof (cases "resolve e s l lp ln")
  case None
  with assms show ?thesis by (simp add: checkpath_def)
next
  case (Some x)
  show ?thesis
  proof (cases x)
    case None
    with assms Some show ?thesis by (simp add: checkpath_def)
  next
    case (Some r)
    with \<open>resolve e s l lp ln = Some x\<close> have r: "resolve e s l lp ln = Some (Some r)" by simp
    with assms have "examine e s l lp r = (res, s')" by (simp add: checkpath_def)
    moreover have "r_isroot r \<longrightarrow> r_l r = Some localroot" using resolve_isroot [OF r] by simp
    ultimately show ?thesis using examine_keeps_state [of r s e l lp] assms(2) by simp
  qed
qed

section \<open>The returned node\<close>

text \<open>The value of \<^verbatim>\<open>l\<close> after each step, by the case the call is in.\<close>

lemma refresh_kept:
  "\<not> overwritten s n fa \<Longrightarrow> \<exists>s1. refresh s n fa = (Some n, s1) \<and> (\<forall>m. ltype (nodes s1 m) = ltype (nodes s m))"
  by (simp add: refresh_def Let_def)

lemma refresh_dropped:
  "overwritten s n fa \<Longrightarrow> \<exists>s1. refresh s n fa = (None, s1) \<and> fsidnode s1 = fsidnode s \<and> nnodes s1 = nnodes s"
  by (simp add: refresh_def)

lemma track_kept:
  assumes "\<not> r_isroot r" "r_l r = Some n" "\<not> overwritten s n fa"
  shows "\<exists>s1. track e s r fa = (Some n, False, s1) \<and> ltype (nodes s1 n) = ltype (nodes s n)"
  using assms refresh_kept [OF assms(3)] by (auto simp: track_def)

lemma track_unmatched:
  assumes "\<not> r_isroot r" "unmatched s r fa"
  shows "\<exists>s0. track e s r fa = addormove e s0 r fa \<and> fsidnode s0 = fsidnode s \<and> nnodes s0 = nnodes s"
proof (cases "r_l r")
  case None
  with assms show ?thesis by (auto simp: track_def)
next
  case (Some n)
  with assms have "overwritten s n fa" by (simp add: unmatched_def)
  from refresh_dropped [OF this] Some assms(1) show ?thesis by (auto simp: track_def)
qed

lemma addormove_move:
  "registered s fa \<Longrightarrow> \<exists>s1. addormove e s r fa = (None, False, s1)"
  by (auto simp: addormove_def registered_def Let_def)

lemma addormove_new:
  "\<not> registered s fa \<Longrightarrow> \<exists>s1. addormove e s r fa = (Some (nnodes s), True, s1)"
  by (auto simp: addormove_def registered_def Let_def split: option.splits)

lemma bykind_new:
  "\<not> r_isroot r \<Longrightarrow> fst (bykind e s r fa (Some n) True) = Some n"
  by (simp add: bykind_def Let_def split: prod.splits)

lemma bykind_none: "fst (bykind e s r fa None nn) = None"
  by (simp add: bykind_def)

lemma bykind_old:
  "\<not> r_isroot r \<Longrightarrow> fst (bykind e s r fa (Some n) False) = (if ltype (nodes s n) = FOLDERNODE then None else Some n)"
  by (simp add: bykind_def Let_def split: prod.splits)

lemma bykind_root:
  "fst (bykind e s r fa (Some n) False) =
     (if ltype (nodes s n) = FOLDERNODE then None else Some n)"
  by (simp add: bykind_def Let_def split: prod.splits)

lemma examine_fst:
  "opened (fopen e (r_open r)) \<Longrightarrow> track e s r (fopen e (r_open r)) = (l1, nn, s1) \<Longrightarrow>
   fst (examine e s ll lp r) = fst (bykind e s1 r (fopen e (r_open r)) l1 nn)"
  by (simp add: examine_def Let_def split: prod.splits)

text \<open>Where line 316 dereferences \<^verbatim>\<open>l\<close> it is not \<^verbatim>\<open>NULL\<close>.\<close>

lemma bykind_nonnull:
  assumes "bykind e s r fa l nn = (l2, ch, s2)" and "ch \<or> (nn \<and> l \<noteq> None)"
  shows "l2 \<noteq> None"
proof (cases l)
  case None
  with assms show ?thesis by (simp add: bykind_def)
next
  case (Some n)
  with assms show ?thesis
    by (auto simp: bykind_def Let_def split: if_splits prod.splits)
qed

lemma track_newnode:
  assumes "track e s r fa = (l1, nn, s1)" and "nn"
  shows "l1 \<noteq> None"
  using track_sizes [OF assms(1)] assms(2) by auto

lemma line_316_not_null:
  assumes "track e s r fa = (l1, nn, s1)" and "bykind e s1 r fa l1 nn = (l2, ch, s2)" and "ch \<or> nn"
  shows "l2 \<noteq> None"
  using bykind_nonnull [OF assms(2)] track_newnode [OF assms(1)] assms(3) by blast

section \<open>The tree stays the sync's own\<close>

text \<open>Every pointer a step stores in a children mapping is the moved node or the new node.
  The new node belongs to the sync; the moved node is the one the identity index gives,
  so the tree stays the sync's own as long as that node is one of its nodes.\<close>

lemma kids_setnotseen [simp]: "kids (nodes (setnotseen s n v) m) = kids (nodes s m)"
  by (simp add: setnotseen_def kids_def)

lemma kids_stopxfer [simp]: "kids (nodes (stopxfer s n) m) = kids (nodes s m)"
  by (simp add: stopxfer_def kids_def)

lemma kids_genfingerprint [simp]: "kids (nodes (snd (genfingerprint s n fa)) m) = kids (nodes s m)"
  by (simp add: genfingerprint_def kids_def)

lemma kids_setfsid [simp]: "kids (nodes (setfsid s n h) m) = kids (nodes s m)"
  by (simp add: setfsid_def Let_def kids_def split: option.splits)

lemma kids_unlink:
  "kids (x\<lparr>children := (children x)(k := None),
           schildren := (if c then (schildren x)(k' := None) else schildren x)\<rparr>) \<subseteq> {} \<union> kids x"
  using ran_del_sub [of "children x" k] ran_del_sub [of "schildren x" k']
  by (auto simp: kids_def)

lemma kids_link:
  "kids (x\<lparr>children := (children x)(k \<mapsto> n),
           schildren := (case g of None \<Rightarrow> schildren x | Some a \<Rightarrow> (schildren x)(a \<mapsto> n))\<rparr>)
     \<subseteq> {n} \<union> kids x"
proof (cases g)
  case None
  then show ?thesis using ran_upd_sub [of "children x" k n] by (auto simp: kids_def)
next
  case (Some a)
  then show ?thesis
    using ran_upd_sub [of "children x" k n] ran_upd_sub [of "schildren x" a n]
    by (auto simp: kids_def)
qed

lemma kids_names [simp]:
  "kids (x\<lparr>localname := a, name := b, slocalname := c\<rparr>) = kids x"
  "kids (x\<lparr>parent := p\<rparr>) = kids x"
  by (simp_all add: kids_def)

lemma kids_upd_sub:
  assumes "kids (f (nodes s n)) \<subseteq> A \<union> kids (nodes s n)"
  shows "kids (nodes (upd s n f) m) \<subseteq> A \<union> kids (nodes s m)"
  using assms by auto

lemma kids_setnameparent: "kids (nodes (setnameparent e s n p lp) m) \<subseteq> insert n (kids (nodes s m))"
proof -
  define s1 where "s1 = (case parent (nodes s n) of
                  None \<Rightarrow> s
                | Some q \<Rightarrow> upd s q (\<lambda>x. x\<lparr>children := (children x)(localname (nodes s n) := None),
                                            schildren := (if slocalname (nodes s n) \<noteq> []
                                                          then (schildren x)(slocalname (nodes s n) := None)
                                                          else schildren x)\<rparr>))"
  define s2 where "s2 = upd s1 n (\<lambda>x. x\<lparr>localname := lastcomponent (localseparator e) lp,
      name := local2name e (lastcomponent (localseparator e) lp),
      slocalname := (case getsname e lp of None \<Rightarrow> [] | Some a \<Rightarrow> a)\<rparr>)"
  have k1: "kids (nodes s1 m) \<subseteq> kids (nodes s m)" for m
  proof (cases "parent (nodes s n)")
    case None
    then show ?thesis by (simp add: s1_def)
  next
    case (Some q)
    have "kids (nodes (upd s q (\<lambda>x. x\<lparr>children := (children x)(localname (nodes s n) := None),
                                            schildren := (if slocalname (nodes s n) \<noteq> []
                                                          then (schildren x)(slocalname (nodes s n) := None)
                                                          else schildren x)\<rparr>)) m) \<subseteq> {} \<union> kids (nodes s m)"
      by (rule kids_upd_sub) (rule kids_unlink)
    with Some show ?thesis by (simp add: s1_def)
  qed
  have k2: "kids (nodes s2 m) = kids (nodes s1 m)" for m by (simp add: s2_def)
  have eq: "setnameparent e s n p lp = (case p of None \<Rightarrow> s2
      | Some q \<Rightarrow> upd (upd s2 n (\<lambda>x. x\<lparr>parent := Some q\<rparr>)) q
           (\<lambda>x. x\<lparr>children := (children x)(lastcomponent (localseparator e) lp \<mapsto> n),
                  schildren := (case getsname e lp of None \<Rightarrow> schildren x | Some a \<Rightarrow> (schildren x)(a \<mapsto> n))\<rparr>))"
    by (cases p) (simp_all add: setnameparent_def Let_def s1_def s2_def)
  show ?thesis
  proof (cases p)
    case None
    with eq k1 k2 show ?thesis by auto
  next
    case (Some q)
    let ?s3 = "upd s2 n (\<lambda>x. x\<lparr>parent := Some q\<rparr>)"
    have k3: "kids (nodes ?s3 m) = kids (nodes s2 m)" for m by simp
    have "kids (nodes (upd ?s3 q
           (\<lambda>x. x\<lparr>children := (children x)(lastcomponent (localseparator e) lp \<mapsto> n),
                  schildren := (case getsname e lp of None \<Rightarrow> schildren x | Some a \<Rightarrow> (schildren x)(a \<mapsto> n))\<rparr>)) m)
          \<subseteq> {n} \<union> kids (nodes ?s3 m)"
      by (rule kids_upd_sub) (rule kids_link)
    with Some eq k1 [of m] k2 [of m] k3 show ?thesis by auto
  qed
qed

lemma kids_blank [simp]: "kids (blank ow t i sq) = {}"
  by (simp add: kids_def blank_def)

lemma kids_init:
  "kids (nodes (init e s n t p cn cp) m) \<subseteq> insert n (if m = n then {} else kids (nodes s m))"
proof (cases p)
  case None
  then show ?thesis by (auto simp: init_def Let_def kids_def blank_def)
next
  case (Some q)
  let ?s1 = "s\<lparr>nodes := (nodes s)(n := blank (self s) t n (scanseqno s))\<rparr>"
  have "kids (nodes (setnameparent e ?s1 n (Some q) cp) m) \<subseteq> insert n (kids (nodes ?s1 m))"
    by (rule kids_setnameparent)
  with Some show ?thesis by (auto simp: init_def Let_def)
qed

lemma refresh_kids [simp]: "kids (nodes (snd (refresh s n fa)) m) = kids (nodes s m)"
proof -
  have "kids (nodes (upd s' n (\<lambda>x. x\<lparr>lscanseqno := v\<rparr>)) m) = kids (nodes s' m)" for s' v
    by (simp add: kids_def)
  then show ?thesis by (simp add: refresh_def Let_def)
qed

lemma own_treeI:
  "mine s (Some localroot) \<Longrightarrow>
   (\<And>n c. n < nnodes s \<Longrightarrow> owner (nodes s n) = self s \<Longrightarrow> c \<in> kids (nodes s n) \<Longrightarrow> mine s (Some c)) \<Longrightarrow>
   own_tree s"
  by (simp add: own_tree_def)

lemma own_tree_root: "own_tree s \<Longrightarrow> mine s (Some localroot)"
  by (simp add: own_tree_def)

lemma own_tree_same:
  assumes ok: "own_tree s"
    and nn: "nnodes s' = nnodes s" and sf: "self s' = self s"
    and ow: "\<And>m. owner (nodes s' m) = owner (nodes s m)"
    and k: "\<And>m. kids (nodes s' m) \<subseteq> A \<union> kids (nodes s m)"
    and a: "\<And>a. a \<in> A \<Longrightarrow> mine s (Some a)"
  shows "own_tree s'"
proof (rule own_treeI)
  have m: "mine s' (Some x)" if "mine s (Some x)" for x
    using that nn sf ow by (simp add: mine_def)
  show "mine s' (Some localroot)" by (rule m [OF own_tree_root [OF ok]])
  fix n c
  assume n: "n < nnodes s'" and o: "owner (nodes s' n) = self s'" and c: "c \<in> kids (nodes s' n)"
  from n o nn sf ow have mn: "mine s (Some n)" by (simp add: mine_def)
  from c k [of n] have "c \<in> A \<or> c \<in> kids (nodes s n)" by auto
  then have "mine s (Some c)" using a own_tree_kid [OF ok mn] by auto
  then show "mine s' (Some c)" by (rule m)
qed

lemma own_tree_added:
  assumes ok: "own_tree s" and ad: "added s t s'"
    and k: "\<And>m. kids (nodes s' m) \<subseteq> insert (nnodes s) (if m = nnodes s then {} else kids (nodes s m))"
  shows "own_tree s'"
proof (rule own_treeI)
  have m: "mine s' (Some x)" if "mine s (Some x)" for x
    using that ad by (auto simp: mine_def added_def)
  have new: "mine s' (Some (nnodes s))" using ad by (simp add: mine_def added_def)
  show "mine s' (Some localroot)" by (rule m [OF own_tree_root [OF ok]])
  fix n c
  assume n: "n < nnodes s'" and o: "owner (nodes s' n) = self s'" and c: "c \<in> kids (nodes s' n)"
  show "mine s' (Some c)"
  proof (cases "n = nnodes s")
    case True
    with c k [of n] have "c = nnodes s" by auto
    with new show ?thesis by simp
  next
    case False
    with n o ad have mn: "mine s (Some n)" by (auto simp: mine_def added_def)
    from c k [of n] False have "c = nnodes s \<or> c \<in> kids (nodes s n)" by auto
    then show ?thesis using new m own_tree_kid [OF ok mn] by auto
  qed
qed

lemma refresh_own_tree:
  assumes "own_tree s"
  shows "own_tree (snd (refresh s n fa))"
proof -
  obtain l1 s1 where rf: "refresh s n fa = (l1, s1)" by (cases "refresh s n fa")
  from refresh_sizes [OF rf] have ss: "same_sizes s s1" by simp
  have k: "kids (nodes s1 m) \<subseteq> {} \<union> kids (nodes s m)" for m
    using refresh_kids [of s n fa m] rf by simp
  have "own_tree s1"
    by (rule own_tree_same [OF assms _ _ _ k]) (use ss in \<open>simp_all add: same_sizes_def\<close>)
  with rf show ?thesis by simp
qed

lemma addormove_own_tree:
  assumes ok: "own_tree s" and mv: "mine s (byfsid s fa)"
  shows "own_tree (snd (snd (addormove e s r fa)))"
proof (cases "if fsidvalid fa then fsidnode s (fa_fsid fa) else None")
  case (Some m0)
  with mv have m0: "mine s (Some m0)" by (simp add: byfsid_def split: if_splits)
  let ?s2 = "setnameparent e (emit s (Syncupdate_local_move (name (nodes s m0)) (r_path r))) m0 (r_parent r) (r_open r)"
  have eq: "snd (snd (addormove e s r fa)) = setnotseen ?s2 m0 0"
    using Some by (simp add: addormove_def Let_def)
  have k: "kids (nodes (setnotseen ?s2 m0 0) m) \<subseteq> {m0} \<union> kids (nodes s m)" for m
    using kids_setnameparent [of e "emit s (Syncupdate_local_move (name (nodes s m0)) (r_path r))" m0 "r_parent r" "r_open r" m]
    by simp
  show ?thesis unfolding eq
    by (rule own_tree_same [OF ok _ _ _ k]) (use m0 in simp_all)
next
  case None
  let ?n = "nnodes s"
  let ?s1 = "init e (s\<lparr>nnodes := Suc ?n\<rparr>) ?n (fa_type fa) (r_parent r) (r_name r) (r_open r)"
  define s2 where "s2 = (if fsidvalid fa then setfsid ?s1 ?n (fa_fsid fa) else ?s1)"
  have eq: "snd (snd (addormove e s r fa)) = s2"
    using None by (simp add: addormove_def Let_def s2_def)
  have k: "kids (nodes s2 m) \<subseteq> insert ?n (if m = ?n then {} else kids (nodes s m))" for m
    using kids_init [of e "s\<lparr>nnodes := Suc ?n\<rparr>" ?n "fa_type fa" "r_parent r" "r_name r" "r_open r" m]
    by (simp add: s2_def split: if_splits)
  obtain l1 nn s1 where am: "addormove e s r fa = (l1, nn, s1)" by (cases "addormove e s r fa")
  with eq have s1: "s1 = s2" by simp
  from addormove_sizes [OF am] have "same_sizes s s1 \<and> \<not> nn \<or> added s (fa_type fa) s1 \<and> nn" by auto
  moreover have "nn" using am None by (simp add: addormove_def Let_def)
  ultimately have ad: "added s (fa_type fa) s2" using s1 by simp
  show ?thesis unfolding eq by (rule own_tree_added [OF ok ad k])
qed

lemma mine_same: "same_sizes s s' \<Longrightarrow> mine s l \<Longrightarrow> mine s' l"
  by (cases l) (simp_all add: mine_def same_sizes_def)

lemma track_own_tree:
  assumes ok: "own_tree s" and mv: "mine s (byfsid s fa)"
  shows "own_tree (snd (snd (track e s r fa)))"
proof (cases "r_isroot r")
  case True
  with ok show ?thesis by (simp add: track_def)
next
  case False
  show ?thesis
  proof (cases "r_l r")
    case None
    with False show ?thesis using addormove_own_tree [OF ok mv, of e r] by (simp add: track_def)
  next
    case (Some n)
    obtain l1 s1 where rf: "refresh s n fa = (l1, s1)" by (cases "refresh s n fa")
    have h1: "own_tree s1" using refresh_own_tree [OF ok, of n fa] rf by simp
    show ?thesis
    proof (cases l1)
      case None
      with rf have ov: "overwritten s n fa" by (cases "overwritten s n fa") (simp_all add: refresh_def Let_def)
      from refresh_dropped [OF ov] rf have f: "fsidnode s1 = fsidnode s" by simp
      from refresh_sizes [OF rf] have ss: "same_sizes s s1" by simp
      from f have "byfsid s1 fa = byfsid s fa" by (simp add: byfsid_def)
      with mv have "mine s1 (byfsid s1 fa)" using mine_same [OF ss] by simp
      from addormove_own_tree [OF h1 this, of e r] None False Some rf show ?thesis by (simp add: track_def)
    next
      case (Some a)
      with False \<open>r_l r = Some n\<close> rf h1 show ?thesis by (simp add: track_def)
    qed
  qed
qed

lemma own_tree_cong:
  assumes "own_tree s" "nnodes s' = nnodes s" "self s' = self s" "nodes s' = nodes s"
  shows "own_tree s'"
  by (rule own_tree_same [OF assms(1,2,3), where A = "{}"])
     (simp_all only: assms(4) Un_empty_left subset_refl empty_iff)

lemma bykind_own_tree:
  assumes "own_tree s"
  shows "own_tree (snd (snd (bykind e s r fa l nn)))"
proof (cases l)
  case None
  with assms show ?thesis by (simp add: bykind_def)
next
  case (Some n)
  define s1 where "s1 = (if 0 < sint (lsize (nodes s n)) then s\<lparr>localbytes := localbytes s - lsize (nodes s n)\<rparr> else s)"
  obtain ch s2 where g: "genfingerprint s1 n fa = (ch, s2)" by (cases "genfingerprint s1 n fa")
  have s1: "own_tree s1" by (rule own_tree_cong [OF assms]) (simp_all add: s1_def)
  have k: "kids (nodes s2 m) \<subseteq> {} \<union> kids (nodes s1 m)" for m
    using kids_genfingerprint [of s1 n fa m] g by simp
  have "own_tree s2"
  proof (rule own_tree_same [OF s1 _ _ _ k])
    show "nnodes s2 = nnodes s1" using genfingerprint_fields(6) [of s1 n fa] g by simp
    show "self s2 = self s1" using genfingerprint_fields(1) [of s1 n fa] g by simp
    show "owner (nodes s2 m) = owner (nodes s1 m)" for m
      using genfingerprint_fields(2) [of s1 n fa m] g by simp
  qed simp
  then have s3: "own_tree (if 0 < sint (lsize (nodes s2 n)) then s2\<lparr>localbytes := localbytes s2 + lsize (nodes s2 n)\<rparr> else s2)"
    by (rule own_tree_cong) simp_all
  have em: "own_tree (emit x ev)" if "own_tree x" for x ev
    by (rule own_tree_cong [OF that]) simp_all
  have sc: "own_tree (snd (scan e s (r_open r)))"
    by (rule own_tree_cong [OF assms]) simp_all
  have cs: "own_tree (changestate s SYNC_FAILED)"
    by (rule own_tree_cong [OF assms]) simp_all
  show ?thesis using Some g s3 em sc cs assms
    by (simp add: bykind_def Let_def s1_def [symmetric])
qed

lemma examine_own_tree:
  assumes ok: "own_tree s" and mv: "mine s (byfsid s (fopen e (r_open r)))"
  shows "own_tree (snd (examine e s ll lp r))"
proof (cases "opened (fopen e (r_open r))")
  case True
  let ?fa = "fopen e (r_open r)"
  obtain l1 nn s1 where t: "track e s r ?fa = (l1, nn, s1)" by (cases "track e s r ?fa")
  obtain l2 ch s2 where b: "bykind e s1 r ?fa l1 nn = (l2, ch, s2)" by (cases "bykind e s1 r ?fa l1 nn")
  have "own_tree s1" using track_own_tree [OF ok mv, of e r] t by simp
  then have s2: "own_tree s2" using bykind_own_tree [of s1 e r ?fa l1 nn] b by simp
  have "own_tree (s2\<lparr>syncadded := x, syncactivity := True\<rparr>)" for x
    by (rule own_tree_cong [OF s2]) simp_all
  with s2 show ?thesis using True t b
    by (simp add: examine_def Let_def split: option.splits)
next
  case False
  have a: "own_tree (notify s q l p)" for q l p
    by (rule own_tree_cong [OF ok]) simp_all
  have k: "kids (nodes (setnotseen (x\<lparr>syncactivity := True\<rparr>) n 1) m) \<subseteq> {} \<union> kids (nodes x m)" for x n m
    by (simp add: setnotseen_def upd_def kids_def)
  have b: "own_tree (setnotseen (x\<lparr>syncactivity := True\<rparr>) n 1)" if "own_tree x" for x n
    by (rule own_tree_same [OF that _ _ _ k]) (simp_all add: setnotseen_def upd_def)
  have k': "kids (nodes (stopxfer s n) m) \<subseteq> {} \<union> kids (nodes s m)" for n m
    by simp
  have c: "own_tree (stopxfer s n)" for n
    by (rule own_tree_same [OF ok _ _ _ k']) simp_all
  show ?thesis using False a b c ok
    by (simp add: examine_def Let_def split: option.splits)
qed

lemma checkpath_cases:
  assumes "checkpath e s l lp ln = Some (res, s')"
  obtains (abort) "res = None" "s' = s"
  | (reached) r where "resolve e s l lp ln = Some (Some r)" "examine e s l lp r = (res, s')"
  using assms by (auto simp: checkpath_def split: option.splits)

lemma checkpath_own_tree:
  assumes "checkpath e s l lp ln = Some (res, s')" and "own_tree s"
    and "\<forall>q. mine s (byfsid s (fopen e q))"
  shows "own_tree s'"
  using assms(1)
proof (cases rule: checkpath_cases)
  case abort
  with assms(2) show ?thesis by simp
next
  case (reached r)
  from assms(3) have "mine s (byfsid s (fopen e (r_open r)))" by simp
  from examine_own_tree [OF assms(2) this, of l lp] reached(2) show ?thesis by simp
qed

section \<open>The byte total as an invariant\<close>

text \<open>The invariant holds after the constructor and is kept by every call that returns and
  matches the path to no node or to a node of the sync.\<close>

lemma bytes_inv_pinv: "bytes_inv s \<longleftrightarrow> pinv s \<and> sized s"
  using filebytes_posbytes [of s] by (auto simp: bytes_inv_def pinv_def)

lemma checkpath_bytes_step:
  assumes cp: "checkpath e s l lp ln = Some (res, s')"
    and inv: "bytes_inv s"
    and own: "\<forall>r. resolve e s l lp ln = Some (Some r) \<longrightarrow> mine s (r_l r)"
    and sz: "\<forall>p. opened (fopen e p) \<longrightarrow> 0 \<le> sint (fa_size (fopen e p))"
  shows "bytes_inv s'"
  using cp
proof (cases rule: checkpath_cases)
  case abort
  with inv show ?thesis by simp
next
  case (reached r)
  from inv have p: "pinv s" and z: "sized s" by (simp_all add: bytes_inv_pinv)
  have lr: "mine s (r_l r)" using own reached(1) by simp
  show ?thesis
  proof (cases "opened (fopen e (r_open r))")
    case True
    with sz have "0 \<le> sint (fa_size (fopen e (r_open r)))" by simp
    from examine_opened_inv [OF reached(2) True this p z lr] show ?thesis by (simp add: bytes_inv_pinv)
  next
    case False
    from examine_failed_inv [OF reached(2) False p z] show ?thesis by (simp add: bytes_inv_pinv)
  qed
qed

lemma checkpath_bytes_inv:
  assumes cp: "checkpath e s l lp ln = Some (res, s')"
    and inv: "bytes_inv s" and ok: "own_tree s" and lv: "mine s l"
    and sz: "\<forall>p. opened (fopen e p) \<longrightarrow> 0 \<le> sint (fa_size (fopen e p))"
  shows "bytes_inv s'"
proof (rule checkpath_bytes_step [OF cp inv _ sz], intro allI impI)
  fix r assume "resolve e s l lp ln = Some (Some r)"
  then show "mine s (r_l r)" by (rule resolve_mine [OF _ ok lv])
qed

text \<open>While the sizes add up to less than \<open>2\<^sup>6\<^sup>3\<close> no addition wraps around, and the
  64-bit sum read as a signed number is the sum of the sizes.\<close>

lemma sint_sum_list:
  fixes f :: "nat \<Rightarrow> 64 word"
  assumes "\<forall>x \<in> set xs. 0 \<le> sint (f x)" and "sum_list (map (\<lambda>x. sint (f x)) xs) < 2 ^ 63"
  shows "sint (sum_list (map f xs)) = sum_list (map (\<lambda>x. sint (f x)) xs)"
  using assms
proof (induction xs)
  case Nil
  then show ?case by simp
next
  case (Cons a xs)
  have nn: "0 \<le> sum_list (map (\<lambda>x. sint (f x)) xs)"
    using Cons.prems(1) by (intro sum_list_nonneg) auto
  have a: "0 \<le> sint (f a)" using Cons.prems(1) by simp
  have lt: "sint (f a) + sum_list (map (\<lambda>x. sint (f x)) xs) < 2 ^ 63" using Cons.prems(2) by simp
  with a have "sum_list (map (\<lambda>x. sint (f x)) xs) < 2 ^ 63" by simp
  with Cons have ih: "sint (sum_list (map f xs)) = sum_list (map (\<lambda>x. sint (f x)) xs)" by simp
  have "sint (f a + sum_list (map f xs)) = signed_take_bit 63 (sint (f a) + sint (sum_list (map f xs)))"
    by (simp add: sint_word_add)
  also have "\<dots> = sint (f a) + sint (sum_list (map f xs))"
    using a nn lt ih by (intro signed_take_bit_int_eq_self) simp_all
  finally show ?case using ih by simp
qed

lemma filebytes_exact:
  assumes "sized s" and "intbytes s < 2 ^ 63"
  shows "sint (filebytes s) = intbytes s"
proof -
  let ?f = "\<lambda>n. if owner (nodes s n) = self s \<and> ltype (nodes s n) = FILENODE
                         then lsize (nodes s n) else 0"
  have eq: "(\<lambda>n. sint (?f n)) = (\<lambda>n. if owner (nodes s n) = self s \<and> ltype (nodes s n) = FILENODE
                         then sint (lsize (nodes s n)) else 0)"
    by (rule ext) simp
  have "\<forall>n \<in> set [0..<nnodes s]. 0 \<le> sint (?f n)" using assms(1) by (auto simp: sized_def)
  moreover have "sum_list (map (\<lambda>n. sint (?f n)) [0..<nnodes s]) < 2 ^ 63"
    using assms(2) unfolding intbytes_def eq .
  ultimately have "sint (sum_list (map ?f [0..<nnodes s])) = sum_list (map (\<lambda>n. sint (?f n)) [0..<nnodes s])"
    by (rule sint_sum_list)
  then show ?thesis unfolding filebytes_def intbytes_def eq .
qed

text \<open>The constructor establishes both, on a memory in which address 0 is the storage of
  the new root and no other node claims to belong to the new sync.\<close>

lemma sum_list_map_zero: "(\<And>x. x \<in> set xs \<Longrightarrow> f x = 0) \<Longrightarrow> sum_list (map f xs) = 0"
  by (induction xs) simp_all

lemma Sync_fields:
  "self (Sync e this c crootpath remotenode ctag) = this"
  "nnodes (Sync e this c crootpath remotenode ctag) = nnodes c"
  "localbytes (Sync e this c crootpath remotenode ctag) = 0"
  "scanseqno (Sync e this c crootpath remotenode ctag) = scanseqno c"
  "state (Sync e this c crootpath remotenode ctag) = SYNC_INITIALSCAN"
  "owner (nodes (Sync e this c crootpath remotenode ctag) m) = (if m = localroot then this else owner (nodes c m))"
  "ltype (nodes (Sync e this c crootpath remotenode ctag) m) = (if m = localroot then FOLDERNODE else ltype (nodes c m))"
  "kids (nodes (Sync e this c crootpath remotenode ctag) localroot) = {}"
  by (simp_all add: Sync_def init_def Let_def blank_def upd_def kids_def)

lemma Sync_own_tree:
  assumes "0 < nnodes c" and "\<forall>n. 0 < n \<and> n < nnodes c \<longrightarrow> owner (nodes c n) \<noteq> this"
  shows "own_tree (Sync e this c crootpath remotenode ctag)"
proof (rule own_treeI)
  let ?s = "Sync e this c crootpath remotenode ctag"
  show "mine ?s (Some localroot)" using assms(1) by (simp add: mine_def Sync_fields) (simp add: localroot_def)
  fix n k
  assume n: "n < nnodes ?s" and o: "owner (nodes ?s n) = self ?s" and k: "k \<in> kids (nodes ?s n)"
  have "n = localroot"
  proof (rule ccontr)
    assume "n \<noteq> localroot"
    with n o assms(2) show False by (simp add: Sync_fields localroot_def)
  qed
  with k show "mine ?s (Some k)" by (simp add: Sync_fields)
qed

lemma Sync_bytes_inv:
  assumes "\<forall>n. 0 < n \<and> n < nnodes c \<longrightarrow> owner (nodes c n) \<noteq> this"
  shows "bytes_inv (Sync e this c crootpath remotenode ctag)"
proof -
  let ?s = "Sync e this c crootpath remotenode ctag"
  have z: "\<not> (owner (nodes ?s n) = self ?s \<and> ltype (nodes ?s n) = FILENODE)" if "n < nnodes ?s" for n
    using that assms by (cases "n = localroot") (simp_all add: Sync_fields localroot_def)
  have "filebytes ?s = 0"
    unfolding filebytes_def by (rule sum_list_map_zero) (use z in auto)
  moreover have "sized ?s" unfolding sized_def using z by auto
  ultimately show ?thesis by (simp add: bytes_inv_def Sync_fields)
qed

section \<open>Rebuilding a path\<close>

text \<open>The walk keeps the path of the current node, the separator and the unread rest of the
  input equal to the input.\<close>

lemma getlocalpath_child:
  "parent (h c) = Some l \<Longrightarrow> getlocalpath sep h l = Some pre \<Longrightarrow>
   getlocalpath sep h c = Some (pre @ sep @ localname (h c))"
  by (subst getlocalpath.simps) simp

lemma getlocalpath_root: "parent (h n) = None \<Longrightarrow> getlocalpath sep h n = Some (localname (h n))"
  by (subst getlocalpath.simps) simp

lemma drop_sep:
  assumes "take k (drop n xs) = sep"
  shows "drop n xs = sep @ drop (n + k) xs"
  by (metis assms append_take_drop_id drop_drop add.commute)

lemma drop_take_split:
  assumes "ptr \<le> nptr"
  shows "drop ptr xs = take (nptr - ptr) (drop ptr xs) @ drop nptr xs"
proof -
  have "drop (nptr - ptr) (drop ptr xs) = drop nptr xs" using assms by simp
  then show ?thesis by (metis append_take_drop_id)
qed

lemma walk_roundtrip:
  assumes "walk sep h lp l ptr nptr = Some y"
  shows "plainwalk sep h lp l ptr nptr = Some True \<longrightarrow> ptr \<le> nptr \<longrightarrow>
         (\<forall>pre. getlocalpath sep h l = Some pre \<longrightarrow> roundtrip sep h (pre @ sep @ drop ptr lp) y)"
proof (rule walk.raw_induct
    [where P = "\<lambda>sep h lp l ptr nptr y. plainwalk sep h lp l ptr nptr = Some True \<longrightarrow> ptr \<le> nptr \<longrightarrow>
         (\<forall>pre. getlocalpath sep h l = Some pre \<longrightarrow> roundtrip sep h (pre @ sep @ drop ptr lp) y)",
      OF _ assms], goal_cases)
  case (1 walk sep h lp l ptr nptr y)
  show ?case
  proof (intro impI allI)
    fix pre
    assume ok: "plainwalk sep h lp l ptr nptr = Some True" and le: "ptr \<le> nptr"
      and pre: "getlocalpath sep h l = Some pre"
    let ?t = "take (nptr - ptr) (drop ptr lp)"
    have split: "drop ptr lp = ?t @ drop nptr lp" by (rule drop_take_split [OF le])
    show "roundtrip sep h (pre @ sep @ drop ptr lp) y"
    proof (cases "nptr = length lp \<or> take (length sep) (drop nptr lp) = sep")
      case False
      with 1(2) have w: "walk sep h lp l ptr (nptr + length sep) = Some y" by simp
      from False ok have "plainwalk sep h lp l ptr (nptr + length sep) = Some True"
        by (subst (asm) plainwalk.simps) simp
      with 1(1) [OF w] le pre show ?thesis by simp
    next
      case True
      show ?thesis
      proof (cases "findchild (h l) ?t")
        case None
        with True 1(2) have y: "y = (None, Some l, drop ptr lp)" by simp
        have "drop nptr lp = [] \<or> take (length sep) (drop nptr lp) = sep" using True by auto
        with split None have "\<exists>t rest. drop ptr lp = t @ rest \<and> (rest = [] \<or> take (length sep) rest = sep)
            \<and> findchild (h l) t = None"
          by blast
        with pre show ?thesis unfolding y roundtrip_def by simp
      next
        case (Some c)
        from ok True Some have c: "parent (h c) = Some l" "localname (h c) = ?t"
          by (subst (asm) plainwalk.simps, simp split: if_splits)+
        have gc: "getlocalpath sep h c = Some (pre @ sep @ ?t)"
          using getlocalpath_child [OF c(1) pre] c(2) by simp
        show ?thesis
        proof (cases "nptr = length lp")
          case True
          with Some 1(2) have y: "y = (Some c, Some l, [])" by simp
          from True split have "drop ptr lp = ?t" by simp
          with gc show ?thesis unfolding y roundtrip_def by simp
        next
          case False
          with True have sp: "take (length sep) (drop nptr lp) = sep" by simp
          have "drop nptr lp = sep @ drop (nptr + length sep) lp" by (rule drop_sep [OF sp])
          with split have eq: "(pre @ sep @ ?t) @ sep @ drop (nptr + length sep) lp = pre @ sep @ drop ptr lp"
            by simp
          from False True Some 1(2) have w: "walk sep h lp c (nptr + length sep) (nptr + length sep) = Some y"
            by simp
          from ok True Some c False
          have "plainwalk sep h lp c (nptr + length sep) (nptr + length sep) = Some True"
            by (subst (asm) plainwalk.simps) simp
          with 1(1) [OF w] gc have "roundtrip sep h ((pre @ sep @ ?t) @ sep @ drop (nptr + length sep) lp) y"
            by simp
          then show ?thesis unfolding eq .
        qed
      qed
    qed
  qed
qed

section \<open>Facts about the concrete runs\<close>

lemma after_checkpath:
  "resolve e s l lp ln = Some (Some r) \<Longrightarrow> fst (examine e s l lp r) = res \<Longrightarrow>
   checkpath e s l lp ln = Some (res, after (checkpath e s l lp ln) d)"
  by (auto simp: checkpath_def after_def split: prod.splits)

text \<open>The first sync of a client: the constructor gives a tree that is the sync's own and
  a byte total of 0 for no file, and seeing \<^verbatim>\<open>/sync/a.txt\<close> keeps both.\<close>

lemma own_tree_s_root: "own_tree s_root"
  unfolding s_root_def by (rule Sync_own_tree) (auto simp: c_new_def)

lemma bytes_inv_s_root: "bytes_inv s_root"
  unfolding s_root_def by (rule Sync_bytes_inv) (auto simp: c_new_def)

lemma checkpath_s_file:
  "checkpath (posix (fa_file 42 10)) s_root None ''/sync/a.txt'' None = Some (Some 1, s_file)"
proof -
  have r: "resolve (posix (fa_file 42 10)) s_root None ''/sync/a.txt'' None = Some (Some r_new)" by code_simp
  have f: "fst (examine (posix (fa_file 42 10)) s_root None ''/sync/a.txt'' r_new) = Some 1" by code_simp
  show ?thesis unfolding s_file_def by (rule after_checkpath [OF r f])
qed

lemma own_tree_s_file: "own_tree s_file"
proof (rule checkpath_own_tree [OF checkpath_s_file own_tree_s_root], rule allI)
  fix q
  have "fsidnode s_root = Map.empty"
    by (simp add: s_root_def Sync_def Let_def init_def upd_def c_new_def)
  then show "mine s_root (byfsid s_root (fopen (posix (fa_file 42 10)) q))"
    by (simp add: byfsid_def)
qed

lemma bytes_inv_s_file: "bytes_inv s_file"
  by (rule checkpath_bytes_inv [OF checkpath_s_file bytes_inv_s_root own_tree_s_root])
     (simp_all add: posix_def fa_file_def)

text \<open>A node of another sync that a move has brought into the tree is refreshed like any
  other: the byte total of this sync follows its size (0, less 10, plus 25, in 64 bits),
  although the node is none of the sync's own. This is the case the hypothesis on the
  matched node excludes.\<close>

lemma foreign_node_refreshed:
  "self t_moved = 1 \<and> owner (nodes t_moved 1) = 2 \<and> attached t_moved 1 \<and> bytes_inv t_moved
   \<and> checkpath (posix (fa_file 42 25)) t_moved None ''/sync/a.txt'' None = Some (Some 1, t_grown)
   \<and> localbytes t_grown = 15 \<and> filebytes t_grown = 0 \<and> trackedbytes t_grown = 25"
proof -
  have r: "resolve (posix (fa_file 42 25)) t_moved None ''/sync/a.txt'' None = Some (Some r_a)" by code_simp
  have f: "fst (examine (posix (fa_file 42 25)) t_moved None ''/sync/a.txt'' r_a) = Some 1" by code_simp
  have "checkpath (posix (fa_file 42 25)) t_moved None ''/sync/a.txt'' None = Some (Some 1, t_grown)"
    unfolding t_grown_def by (rule after_checkpath [OF r f])
  moreover have "self t_moved = 1" by code_simp
  moreover have "owner (nodes t_moved 1) = 2" by code_simp
  moreover have "attached t_moved 1" by code_simp
  moreover have "bytes_inv t_moved" by code_simp
  moreover have "localbytes t_grown = 15" by code_simp
  moreover have "filebytes t_grown = 0" by code_simp
  moreover have "trackedbytes t_grown = 25" by code_simp
  ultimately show ?thesis by simp
qed

section \<open>The claims\<close>

subsection \<open>C1: the root found to be a file\<close>

text \<open>
  C1 does not hold of the code. A new sync on \<^verbatim>\<open>/sync\<close> is asked to check the root
  path, given absolutely or relative to the root node, while the filesystem has a plain
  file there. \<^verbatim>\<open>localnodebypath\<close> returns no node and no residual for it, so \<^verbatim>\<open>checkpath\<close>
  returns at line 224 before the open: no node is created and nothing is returned, but
  the state stays \<^verbatim>\<open>SYNC_INITIALSCAN\<close>. (By \<open>checkpath_keeps_state\<close>, while the root
  node is of FOLDER kind no call of \<^verbatim>\<open>checkpath\<close> changes the state: line 289 tests the
  kind of the tracked root, not of the opened entry.)
\<close>

theorem root_file_not_failed:
  "localname (nodes s_root localroot) = ''/sync''
   \<and> opened (fopen (posix (fa_file 42 10)) ''/sync'')
   \<and> fa_type (fopen (posix (fa_file 42 10)) ''/sync'') = FILENODE
   \<and> state s_root = SYNC_INITIALSCAN
   \<and> checkpath (posix (fa_file 42 10)) s_root None ''/sync'' None = Some (None, s_root)
   \<and> checkpath (posix (fa_file 42 10)) s_root (Some localroot) [] None = Some (None, s_root)"
proof -
  have "resolve (posix (fa_file 42 10)) s_root None ''/sync'' None = Some None" by code_simp
  then have "checkpath (posix (fa_file 42 10)) s_root None ''/sync'' None = Some (None, s_root)"
    by (simp add: checkpath_def)
  moreover have "resolve (posix (fa_file 42 10)) s_root (Some localroot) [] None = Some None" by code_simp
  then have "checkpath (posix (fa_file 42 10)) s_root (Some localroot) [] None = Some (None, s_root)"
    by (simp add: checkpath_def)
  moreover have "localname (nodes s_root localroot) = ''/sync''" by code_simp
  moreover have "opened (fopen (posix (fa_file 42 10)) ''/sync'')" by code_simp
  moreover have "fa_type (fopen (posix (fa_file 42 10)) ''/sync'') = FILENODE" by code_simp
  moreover have "state s_root = SYNC_INITIALSCAN" by code_simp
  ultimately show ?thesis by simp
qed

subsection \<open>C2: a permanent open failure on a tracked node\<close>

text \<open>
  C2, as stated, fails: line 333 stores 1 in the not-seen counter, it does not add 1.
  After one miss of \<^verbatim>\<open>/sync/a.txt\<close> the counter of its node is 1; a second permanent
  failure returns no node and leaves the counter at 1.
\<close>

theorem second_miss_counterexample:
  "notseen (nodes s_miss 1) = 1
   \<and> map_option fst (checkpath (posix fa_absent) s_miss None ''/sync/a.txt'' None) = Some None
   \<and> notseen (nodes s_miss2 1) = 1"
  by code_simp

text \<open>
  C2, amended. When \<^verbatim>\<open>checkpath\<close> reaches the open with a tracked node \<open>n\<close> matched at
  the path and the open fails permanently, the call returns no node, and the state
  differs from the one before in exactly this: the not-seen counter of \<open>n\<close> is 1 (an
  increment by exactly 1 when it was 0), \<open>n\<close> has no outgoing transfer any more, and sync
  activity is flagged. No node is removed: every other node, and every other field of
  \<open>n\<close>, is unchanged.
\<close>

theorem checkpath_permanent_failure:
  assumes "resolve e s l localpath lname = Some (Some r)"
    and "r_l r = Some n"
    and "\<not> opened (fopen e (r_open r))"
    and "\<not> retry (fopen e (r_open r))"
  shows "checkpath e s l localpath lname =
           Some (None, s\<lparr>syncactivity := True,
                          nodes := (nodes s)(n := (nodes s n)\<lparr>transfer := None, notseen := 1\<rparr>)\<rparr>)"
proof (cases "transfer (nodes s n) = None")
  case True
  then have eq: "(nodes s n)\<lparr>transfer := None, notseen := 1\<rparr> = (nodes s n)\<lparr>notseen := 1\<rparr>"
    by (cases "nodes s n") simp
  have "checkpath e s l localpath lname =
          Some (None, s\<lparr>syncactivity := True, nodes := (nodes s)(n := (nodes s n)\<lparr>notseen := 1\<rparr>)\<rparr>)"
    using assms True by (simp add: checkpath_resolved examine_def setnotseen_def upd_def)
  then show ?thesis unfolding eq .
next
  case False
  then show ?thesis
    using assms by (simp add: checkpath_resolved examine_def setnotseen_def stopxfer_def upd_def)
qed

theorem checkpath_permanent_failure_witness:
  "resolve (posix fa_absent) s_file None ''/sync/a.txt'' None = Some (Some r_a)
   \<and> r_l r_a = Some 1
   \<and> \<not> opened (fopen (posix fa_absent) (r_open r_a)) \<and> \<not> retry (fopen (posix fa_absent) (r_open r_a))
   \<and> checkpath (posix fa_absent) s_file None ''/sync/a.txt'' None =
       Some (None, s_file\<lparr>syncactivity := True,
                          nodes := (nodes s_file)(1 := (nodes s_file 1)\<lparr>transfer := None, notseen := 1\<rparr>)\<rparr>)"
proof -
  have h1: "resolve (posix fa_absent) s_file None ''/sync/a.txt'' None = Some (Some r_a)" by code_simp
  have h2: "r_l r_a = Some 1" by code_simp
  have h3: "\<not> opened (fopen (posix fa_absent) (r_open r_a))" by code_simp
  have h4: "\<not> retry (fopen (posix fa_absent) (r_open r_a))" by code_simp
  show ?thesis using h1 h2 h3 h4 checkpath_permanent_failure [OF h1 h2 h3 h4] by simp
qed

subsection \<open>C3: what the change detector returns\<close>

text \<open>
  C3, as stated, fails: \<^verbatim>\<open>/sync/sub\<close> is a tracked folder, the open succeeds and the
  node is refreshed, yet the call returns no node (line 296), although the path
  corresponds to a tracked entry.
\<close>

theorem existing_folder_counterexample:
  "localnodebypath (posix (fa_folder 7)) s_sub None ''/sync/sub'' = Some (Some 2, Some 0, [])
   \<and> opened (fopen (posix (fa_folder 7)) ''/sync/sub'')
   \<and> map_option fst (checkpath (posix (fa_folder 7)) s_sub None ''/sync/sub'' None) = Some None
   \<and> notseen (nodes s_sub 2) = 0 \<and> ltype (nodes s_sub 2) = FOLDERNODE"
  by code_simp

text \<open>
  C3, amended. Every call that returns gives the node or none as follows. It gives
  none when the path is invalid or vetoed, when the open fails, and when the path is the
  root (whose node is of FOLDER kind). On a successful open of another path: if a
  tracked node of FILE kind is matched and kept, the call returns that node; if a
  tracked node of FOLDER kind is matched and kept, it returns none; if no node is kept
  for the path and the identity of the opened entry is registered (a move), it returns
  none; if no node is kept and the identity is not registered, it returns the node it
  creates.
\<close>

theorem checkpath_result:
  "(resolve e s l localpath lname = Some None \<longrightarrow>
      map_option fst (checkpath e s l localpath lname) = Some None)
   \<and> (\<forall>r. resolve e s l localpath lname = Some (Some r) \<longrightarrow>
        (\<not> opened (fopen e (r_open r)) \<longrightarrow>
           map_option fst (checkpath e s l localpath lname) = Some None)
      \<and> (opened (fopen e (r_open r)) \<and> r_isroot r \<longrightarrow>
           map_option fst (checkpath e s l localpath lname) =
             Some (if ltype (nodes s localroot) = FOLDERNODE then None else Some localroot))
      \<and> (opened (fopen e (r_open r)) \<and> \<not> r_isroot r \<longrightarrow>
           (\<forall>n. r_l r = Some n \<and> \<not> overwritten s n (fopen e (r_open r)) \<and> ltype (nodes s n) = FILENODE
              \<longrightarrow> map_option fst (checkpath e s l localpath lname) = Some (Some n))
         \<and> (\<forall>n. r_l r = Some n \<and> \<not> overwritten s n (fopen e (r_open r)) \<and> ltype (nodes s n) = FOLDERNODE
              \<longrightarrow> map_option fst (checkpath e s l localpath lname) = Some None)
         \<and> (unmatched s r (fopen e (r_open r)) \<and> registered s (fopen e (r_open r))
              \<longrightarrow> map_option fst (checkpath e s l localpath lname) = Some None)
         \<and> (unmatched s r (fopen e (r_open r)) \<and> \<not> registered s (fopen e (r_open r))
              \<longrightarrow> map_option fst (checkpath e s l localpath lname) = Some (Some (nnodes s)))))"
proof (intro conjI impI allI)
  assume "resolve e s l localpath lname = Some None"
  then show "map_option fst (checkpath e s l localpath lname) = Some None"
    by (simp add: checkpath_def)
next
  fix r :: resolved
  assume r: "resolve e s l localpath lname = Some (Some r)" and "\<not> opened (fopen e (r_open r))"
  then show "map_option fst (checkpath e s l localpath lname) = Some None"
    by (simp add: checkpath_resolved examine_def Let_def split: option.splits)
next
  fix r :: resolved
  let ?fa = "fopen e (r_open r)"
  assume r: "resolve e s l localpath lname = Some (Some r)" and o: "opened ?fa \<and> r_isroot r"
  then have rl: "r_l r = Some localroot" using resolve_isroot [OF r] by simp
  with o have "track e s r ?fa = (Some localroot, False, s)" by (simp add: track_def)
  with o have "fst (examine e s l localpath r) = fst (bykind e s r ?fa (Some localroot) False)"
    using examine_fst [of e r s "Some localroot" False s l localpath] by simp
  then show "map_option fst (checkpath e s l localpath lname) =
             Some (if ltype (nodes s localroot) = FOLDERNODE then None else Some localroot)"
    using r by (simp add: checkpath_resolved bykind_root)
next
  fix r :: resolved and n
  let ?fa = "fopen e (r_open r)"
  assume r: "resolve e s l localpath lname = Some (Some r)" and o: "opened ?fa \<and> \<not> r_isroot r"
    and k: "r_l r = Some n \<and> \<not> overwritten s n ?fa \<and> ltype (nodes s n) = FILENODE"
  from track_kept [of r n s ?fa e] o k obtain s1 where
    "track e s r ?fa = (Some n, False, s1)" "ltype (nodes s1 n) = ltype (nodes s n)" by blast
  then have "fst (examine e s l localpath r) = Some n"
    using examine_fst [of e r s "Some n" False s1 l localpath] bykind_old [of r e s1 ?fa n] o k by simp
  then show "map_option fst (checkpath e s l localpath lname) = Some (Some n)"
    using r by (simp add: checkpath_resolved)
next
  fix r :: resolved and n
  let ?fa = "fopen e (r_open r)"
  assume r: "resolve e s l localpath lname = Some (Some r)" and o: "opened ?fa \<and> \<not> r_isroot r"
    and k: "r_l r = Some n \<and> \<not> overwritten s n ?fa \<and> ltype (nodes s n) = FOLDERNODE"
  from track_kept [of r n s ?fa e] o k obtain s1 where
    "track e s r ?fa = (Some n, False, s1)" "ltype (nodes s1 n) = ltype (nodes s n)" by blast
  then have "fst (examine e s l localpath r) = None"
    using examine_fst [of e r s "Some n" False s1 l localpath] bykind_old [of r e s1 ?fa n] o k by simp
  then show "map_option fst (checkpath e s l localpath lname) = Some None"
    using r by (simp add: checkpath_resolved)
next
  fix r :: resolved
  let ?fa = "fopen e (r_open r)"
  assume r: "resolve e s l localpath lname = Some (Some r)" and o: "opened ?fa \<and> \<not> r_isroot r"
    and k: "unmatched s r ?fa \<and> registered s ?fa"
  from track_unmatched [of r s ?fa e] o k obtain s0 where
    s0: "track e s r ?fa = addormove e s0 r ?fa" "fsidnode s0 = fsidnode s" "nnodes s0 = nnodes s" by blast
  from k s0 have "registered s0 ?fa" by (simp add: registered_def)
  from addormove_move [OF this] obtain s1 where "addormove e s0 r ?fa = (None, False, s1)" by blast
  with s0 have "fst (examine e s l localpath r) = None"
    using examine_fst [of e r s None False s1 l localpath] bykind_none o by simp
  then show "map_option fst (checkpath e s l localpath lname) = Some None"
    using r by (simp add: checkpath_resolved)
next
  fix r :: resolved
  let ?fa = "fopen e (r_open r)"
  assume r: "resolve e s l localpath lname = Some (Some r)" and o: "opened ?fa \<and> \<not> r_isroot r"
    and k: "unmatched s r ?fa \<and> \<not> registered s ?fa"
  from track_unmatched [of r s ?fa e] o k obtain s0 where
    s0: "track e s r ?fa = addormove e s0 r ?fa" "fsidnode s0 = fsidnode s" "nnodes s0 = nnodes s" by blast
  from k s0 have "\<not> registered s0 ?fa" by (simp add: registered_def)
  from addormove_new [OF this] obtain s1 where "addormove e s0 r ?fa = (Some (nnodes s0), True, s1)" by blast
  with s0 have "fst (examine e s l localpath r) = Some (nnodes s)"
    using examine_fst [of e r s "Some (nnodes s)" True s1 l localpath] bykind_new [of r e s1 ?fa "nnodes s"] o
    by simp
  then show "map_option fst (checkpath e s l localpath lname) = Some (Some (nnodes s))"
    using r by (simp add: checkpath_resolved)
qed


theorem checkpath_result_witness:
  "(resolve (posix (fa_file 42 10)) s_file None ''/sync/a.txt'' None = Some (Some r_a)
    \<and> opened (fopen (posix (fa_file 42 10)) (r_open r_a)) \<and> \<not> r_isroot r_a
    \<and> r_l r_a = Some 1 \<and> \<not> overwritten s_file 1 (fopen (posix (fa_file 42 10)) (r_open r_a))
    \<and> ltype (nodes s_file 1) = FILENODE
    \<and> map_option fst (checkpath (posix (fa_file 42 10)) s_file None ''/sync/a.txt'' None) = Some (Some 1))
   \<and> (resolve (posix (fa_folder 7)) s_sub None ''/sync/sub'' None = Some (Some r_sub)
    \<and> opened (fopen (posix (fa_folder 7)) (r_open r_sub)) \<and> \<not> r_isroot r_sub
    \<and> r_l r_sub = Some 2 \<and> \<not> overwritten s_sub 2 (fopen (posix (fa_folder 7)) (r_open r_sub))
    \<and> ltype (nodes s_sub 2) = FOLDERNODE
    \<and> map_option fst (checkpath (posix (fa_folder 7)) s_sub None ''/sync/sub'' None) = Some None)
   \<and> (resolve (posix (fa_file 42 10)) s_sub None ''/sync/sub/b.txt'' None = Some (Some r_b)
    \<and> opened (fopen (posix (fa_file 42 10)) (r_open r_b)) \<and> \<not> r_isroot r_b
    \<and> unmatched s_sub r_b (fopen (posix (fa_file 42 10)) (r_open r_b))
    \<and> registered s_sub (fopen (posix (fa_file 42 10)) (r_open r_b))
    \<and> map_option fst (checkpath (posix (fa_file 42 10)) s_sub None ''/sync/sub/b.txt'' None) = Some None)
   \<and> (resolve (posix (fa_file 42 10)) s_root None ''/sync/a.txt'' None = Some (Some r_new)
    \<and> opened (fopen (posix (fa_file 42 10)) (r_open r_new)) \<and> \<not> r_isroot r_new
    \<and> unmatched s_root r_new (fopen (posix (fa_file 42 10)) (r_open r_new))
    \<and> \<not> registered s_root (fopen (posix (fa_file 42 10)) (r_open r_new))
    \<and> map_option fst (checkpath (posix (fa_file 42 10)) s_root None ''/sync/a.txt'' None) = Some (Some (nnodes s_root)))
   \<and> (resolve (posix fa_absent) s_file None ''/sync/a.txt'' None = Some (Some r_a)
    \<and> \<not> opened (fopen (posix fa_absent) (r_open r_a))
    \<and> map_option fst (checkpath (posix fa_absent) s_file None ''/sync/a.txt'' None) = Some None)
   \<and> (resolve (veto (fa_file 42 10)) s_root None ''/sync/a.txt'' None = Some None
    \<and> map_option fst (checkpath (veto (fa_file 42 10)) s_root None ''/sync/a.txt'' None) = Some None)"
proof -
  have a1: "resolve (posix (fa_file 42 10)) s_file None ''/sync/a.txt'' None = Some (Some r_a)" by code_simp
  have a2: "opened (fopen (posix (fa_file 42 10)) (r_open r_a))" by code_simp
  have a3: "\<not> r_isroot r_a" by code_simp
  have a4: "r_l r_a = Some 1 \<and> \<not> overwritten s_file 1 (fopen (posix (fa_file 42 10)) (r_open r_a))
    \<and> ltype (nodes s_file 1) = FILENODE" by code_simp
  have a: "map_option fst (checkpath (posix (fa_file 42 10)) s_file None ''/sync/a.txt'' None) = Some (Some 1)"
    using checkpath_result [of "posix (fa_file 42 10)" s_file None "''/sync/a.txt''" None] a1 a2 a3 a4
    by blast
  have b1: "resolve (posix (fa_folder 7)) s_sub None ''/sync/sub'' None = Some (Some r_sub)" by code_simp
  have b2: "opened (fopen (posix (fa_folder 7)) (r_open r_sub))" by code_simp
  have b3: "\<not> r_isroot r_sub" by code_simp
  have b4: "r_l r_sub = Some 2 \<and> \<not> overwritten s_sub 2 (fopen (posix (fa_folder 7)) (r_open r_sub))
    \<and> ltype (nodes s_sub 2) = FOLDERNODE" by code_simp
  have b: "map_option fst (checkpath (posix (fa_folder 7)) s_sub None ''/sync/sub'' None) = Some None"
    using checkpath_result [of "posix (fa_folder 7)" s_sub None "''/sync/sub''" None] b1 b2 b3 b4
    by blast
  have c1: "resolve (posix (fa_file 42 10)) s_sub None ''/sync/sub/b.txt'' None = Some (Some r_b)" by code_simp
  have c2: "opened (fopen (posix (fa_file 42 10)) (r_open r_b))" by code_simp
  have c3: "\<not> r_isroot r_b" by code_simp
  have c4: "unmatched s_sub r_b (fopen (posix (fa_file 42 10)) (r_open r_b))
    \<and> registered s_sub (fopen (posix (fa_file 42 10)) (r_open r_b))" by code_simp
  have c: "map_option fst (checkpath (posix (fa_file 42 10)) s_sub None ''/sync/sub/b.txt'' None) = Some None"
    using checkpath_result [of "posix (fa_file 42 10)" s_sub None "''/sync/sub/b.txt''" None] c1 c2 c3 c4
    by blast
  have d1: "resolve (posix (fa_file 42 10)) s_root None ''/sync/a.txt'' None = Some (Some r_new)" by code_simp
  have d2: "opened (fopen (posix (fa_file 42 10)) (r_open r_new))" by code_simp
  have d3: "\<not> r_isroot r_new" by code_simp
  have d4: "unmatched s_root r_new (fopen (posix (fa_file 42 10)) (r_open r_new))
    \<and> \<not> registered s_root (fopen (posix (fa_file 42 10)) (r_open r_new))" by code_simp
  have d: "map_option fst (checkpath (posix (fa_file 42 10)) s_root None ''/sync/a.txt'' None) = Some (Some (nnodes s_root))"
    using checkpath_result [of "posix (fa_file 42 10)" s_root None "''/sync/a.txt''" None] d1 d2 d3 d4
    by blast
  have e1: "resolve (posix fa_absent) s_file None ''/sync/a.txt'' None = Some (Some r_a)" by code_simp
  have e2: "\<not> opened (fopen (posix fa_absent) (r_open r_a))" by code_simp
  have e: "map_option fst (checkpath (posix fa_absent) s_file None ''/sync/a.txt'' None) = Some None"
    using checkpath_result [of "posix fa_absent" s_file None "''/sync/a.txt''" None] e1 e2
    by blast
  have f1: "resolve (veto (fa_file 42 10)) s_root None ''/sync/a.txt'' None = Some None" by code_simp
  have f: "map_option fst (checkpath (veto (fa_file 42 10)) s_root None ''/sync/a.txt'' None) = Some None"
    using checkpath_result [of "veto (fa_file 42 10)" s_root None "''/sync/a.txt''" None] f1
    by blast
  show ?thesis
    using a1 a2 a3 a4 a b1 b2 b3 b4 b c1 c2 c3 c4 c d1 d2 d3 d4 d e1 e2 e f1 f by blast
qed

subsection \<open>C4: a move\<close>



subsection \<open>C5: a transient open failure\<close>

text \<open>
  C5. When \<^verbatim>\<open>checkpath\<close> reaches the open (the path resolved to \<open>r\<close> and was not
  vetoed), the open fails and the failure is flagged as one to retry, the call returns
  no node and leaves the state as it was except for one entry appended to the
  \<^verbatim>\<open>RETRY\<close> queue: the node hint and the path the call was given. The tree, the identity
  index, the byte total and the sequence of application events are those of the state
  before.
\<close>

theorem checkpath_transient_failure:
  assumes "resolve e s l localpath lname = Some (Some r)"
    and "\<not> opened (fopen e (r_open r))"
    and "retry (fopen e (r_open r))"
  shows "checkpath e s l localpath lname =
           Some (None, s\<lparr>notifyq := (notifyq s)(RETRY := notifyq s RETRY @ [(l, localpath)])\<rparr>)"
  using assms by (simp add: checkpath_resolved examine_def notify_def)

theorem checkpath_transient_failure_witness:
  "resolve (posix fa_busy) s_file None ''/sync/a.txt'' None = Some (Some r_a)
   \<and> \<not> opened (fopen (posix fa_busy) (r_open r_a)) \<and> retry (fopen (posix fa_busy) (r_open r_a))
   \<and> checkpath (posix fa_busy) s_file None ''/sync/a.txt'' None =
       Some (None, s_file\<lparr>notifyq := (notifyq s_file)(RETRY := notifyq s_file RETRY @ [(None, ''/sync/a.txt'')])\<rparr>)"
proof -
  have h1: "resolve (posix fa_busy) s_file None ''/sync/a.txt'' None = Some (Some r_a)" by code_simp
  have h2: "\<not> opened (fopen (posix fa_busy) (r_open r_a))" by code_simp
  have h3: "retry (fopen (posix fa_busy) (r_open r_a))" by code_simp
  show ?thesis using h1 h2 h3 checkpath_transient_failure [OF h1 h2 h3] by simp
qed

subsection \<open>C6: the byte total\<close>

text \<open>
  C6, as stated, fails: the total also counts a node that is no longer tracked. In the
  tree with \<^verbatim>\<open>/sync/a.txt\<close> (identity 42, 10 bytes) the file is found replaced by another
  one (identity 43, 7 bytes). Line 248 marks node 1 not seen and drops the match, a new
  node 2 takes its place in the children mapping of the root, and lines 303--305 add the
  7 bytes of node 2 without subtracting the 10 bytes of node 1: the total is 17, the
  sizes of the FILE-kind nodes attached to the tree add up to 7.
\<close>

theorem stale_node_counted:
  "localbytes s_file = 10 \<and> trackedbytes s_file = 10
   \<and> checkpath (posix (fa_file 43 7)) s_file None ''/sync/a.txt'' None = Some (Some 2, s_over)
   \<and> attached s_over 2 \<and> \<not> attached s_over 1
   \<and> notseen (nodes s_over 1) = 1 \<and> lsize (nodes s_over 1) = 10 \<and> lsize (nodes s_over 2) = 7
   \<and> localbytes s_over = 17 \<and> trackedbytes s_over = 7"
proof -
  have r: "resolve (posix (fa_file 43 7)) s_file None ''/sync/a.txt'' None = Some (Some r_a)" by code_simp
  have f: "fst (examine (posix (fa_file 43 7)) s_file None ''/sync/a.txt'' r_a) = Some 2" by code_simp
  have "checkpath (posix (fa_file 43 7)) s_file None ''/sync/a.txt'' None = Some (Some 2, s_over)"
    unfolding s_over_def by (rule after_checkpath [OF r f])
  moreover have "localbytes s_file = 10" by code_simp
  moreover have "trackedbytes s_file = 10" by code_simp
  moreover have "attached s_over 2" by code_simp
  moreover have "\<not> attached s_over 1" by code_simp
  moreover have "notseen (nodes s_over 1) = 1" by code_simp
  moreover have "lsize (nodes s_over 1) = 10" by code_simp
  moreover have "lsize (nodes s_over 2) = 7" by code_simp
  moreover have "localbytes s_over = 17" by code_simp
  moreover have "trackedbytes s_over = 7" by code_simp
  ultimately show ?thesis by simp
qed

text \<open>
  C6, amended. What the total follows is the sum over all \<^verbatim>\<open>LocalNode\<close> objects of the
  sync that exist, attached to the tree or not. Let the byte total equal the sum, in the
  64-bit arithmetic of the total, of the fingerprint sizes of the FILE-kind nodes of the
  sync, and let each of these sizes be non-negative (\<open>bytes_inv\<close>); let the node the
  path is matched to, if any, be a node of this sync, and the gateway report no negative
  size. Then after every call of \<^verbatim>\<open>checkpath\<close> that returns, the byte total again equals
  that sum and the sizes are non-negative; and if the sizes add up to less than
  \<open>2\<^sup>6\<^sup>3\<close>, the total read as a signed number is their sum over the integers.

  The constructor establishes \<open>bytes_inv\<close> (\<open>Sync_bytes_inv\<close>). The matched node is one
  of the sync whenever the tree is the sync's own (\<open>resolve_mine\<close>), which the
  constructor establishes and which a call keeps unless it moves in a node of another
  sync (\<open>Sync_own_tree\<close>, \<open>checkpath_own_tree\<close>); for such a node the conclusion fails
  (\<open>foreign_node_refreshed\<close>). Nothing is assumed about the identity index.
\<close>

theorem checkpath_localbytes:
  assumes "checkpath e s l localpath lname = Some (res, s')"
    and "bytes_inv s"
    and "\<forall>r. resolve e s l localpath lname = Some (Some r) \<longrightarrow> mine s (r_l r)"
    and "\<forall>p. opened (fopen e p) \<longrightarrow> 0 \<le> sint (fa_size (fopen e p))"
  shows "localbytes s' = filebytes s' \<and> sized s'
         \<and> (intbytes s' < 2 ^ 63 \<longrightarrow> sint (localbytes s') = intbytes s')"
proof -
  have "bytes_inv s'" by (rule checkpath_bytes_step [OF assms])
  then have "localbytes s' = filebytes s'" and "sized s'" by (simp_all add: bytes_inv_def)
  then show ?thesis using filebytes_exact [of s'] by simp
qed

theorem checkpath_localbytes_witness:
  "checkpath (posix (fa_file 42 25)) s_file None ''/sync/a.txt'' None = Some (Some 1, s_grown)
   \<and> bytes_inv s_file
   \<and> resolve (posix (fa_file 42 25)) s_file None ''/sync/a.txt'' None = Some (Some r_a)
   \<and> mine s_file (r_l r_a)
   \<and> 0 \<le> sint (fa_size (fa_file 42 25))
   \<and> localbytes s_file = 10 \<and> localbytes s_grown = 25
   \<and> localbytes s_grown = filebytes s_grown \<and> sized s_grown
   \<and> intbytes s_grown = 25 \<and> sint (localbytes s_grown) = intbytes s_grown"
proof -
  have r: "resolve (posix (fa_file 42 25)) s_file None ''/sync/a.txt'' None = Some (Some r_a)" by code_simp
  have f: "fst (examine (posix (fa_file 42 25)) s_file None ''/sync/a.txt'' r_a) = Some 1" by code_simp
  have h1: "checkpath (posix (fa_file 42 25)) s_file None ''/sync/a.txt'' None = Some (Some 1, s_grown)"
    unfolding s_grown_def by (rule after_checkpath [OF r f])
  have h2: "bytes_inv s_file" by (rule bytes_inv_s_file)
  have m: "mine s_file (r_l r_a)" by code_simp
  have h3: "\<forall>r. resolve (posix (fa_file 42 25)) s_file None ''/sync/a.txt'' None = Some (Some r)
              \<longrightarrow> mine s_file (r_l r)"
    using m by (simp add: r)
  have h5: "\<forall>p. opened (fopen (posix (fa_file 42 25)) p)
              \<longrightarrow> 0 \<le> sint (fa_size (fopen (posix (fa_file 42 25)) p))"
    by (simp add: posix_def fa_file_def)
  have v: "localbytes s_file = 10" "localbytes s_grown = 25" "0 \<le> sint (fa_size (fa_file 42 25))"
    "intbytes s_grown = 25"
    by code_simp+
  show ?thesis
    using h1 h2 r m v checkpath_localbytes [OF h1 h2 h3 h5]
    by simp
qed

subsection \<open>C7: the scan sweep number\<close>

text \<open>
  C7. Whenever \<^verbatim>\<open>procscanq\<close> returns, the scan sweep number has advanced by exactly 1
  if the drained queue and the other queue are both empty at that point, and has not
  changed otherwise; in particular it does not advance while the other queue holds an
  entry. The sweep number is a 32-bit \<^verbatim>\<open>int\<close> and the step is the \<^verbatim>\<open>scanseqno++\<close> of line
  358: whatever value it starts from (the constructor assigns none), it goes to the next
  one, and from \<^verbatim>\<open>INT_MAX\<close> to \<^verbatim>\<open>INT_MIN\<close>, as in the first run of the witness.
\<close>

theorem procscanq_sweep:
  assumes "procscanq e s q = Some s'"
  shows "scanseqno s' = (if notifyq s' q = [] \<and> notifyq s' (otherq q) = []
                          then scanseqno s + 1 else scanseqno s)"
  using assms drain_scanseqno [of e q s]
  by (auto simp: procscanq_def split: option.splits if_splits)

theorem procscanq_sweep_witness:
  "procscanq (posix (fa_file 42 10)) s_queued DIREVENTS = Some s_swept
   \<and> notifyq s_swept DIREVENTS = [] \<and> notifyq s_swept (otherq DIREVENTS) = []
   \<and> scanseqno s_swept = scanseqno s_queued + 1
   \<and> sint (scanseqno s_queued) = 2147483647 \<and> sint (scanseqno s_swept) = - 2147483648
   \<and> procscanq (posix (fa_file 42 10)) s_both DIREVENTS = Some s_half
   \<and> notifyq s_half DIREVENTS = [] \<and> notifyq s_half (otherq DIREVENTS) = [(None, ''/sync/b.txt'')]
   \<and> scanseqno s_half = scanseqno s_both"
proof -
  have "procscanq (posix (fa_file 42 10)) s_queued DIREVENTS \<noteq> None" by code_simp
  then have h: "procscanq (posix (fa_file 42 10)) s_queued DIREVENTS = Some s_swept"
    by (auto simp: s_swept_def)
  have "procscanq (posix (fa_file 42 10)) s_both DIREVENTS \<noteq> None" by code_simp
  then have g: "procscanq (posix (fa_file 42 10)) s_both DIREVENTS = Some s_half"
    by (auto simp: s_half_def)
  have v: "notifyq s_swept DIREVENTS = []" "notifyq s_swept (otherq DIREVENTS) = []"
    "sint (scanseqno s_queued) = 2147483647" "sint (scanseqno s_swept) = - 2147483648"
    "notifyq s_half DIREVENTS = []" "notifyq s_half (otherq DIREVENTS) = [(None, ''/sync/b.txt'')]"
    by code_simp+
  show ?thesis using h g v procscanq_sweep [OF h] procscanq_sweep [OF g] by simp
qed

subsection \<open>C8: the syncability predicate\<close>

text \<open>
  C8, as stated, fails: a call that names the last component (the shortcut of lines
  200--208) never consults the predicate. With an application that vetoes every name,
  such a call on \<^verbatim>\<open>/sync/a.txt\<close> creates node 1 and returns it.
\<close>

theorem shortcut_veto_counterexample:
  "\<not> fst (sync_syncable (veto (fa_file 42 10)) ''a.txt'' ''/sync/a.txt'' ''a.txt'')
   \<and> map_option fst (checkpath (veto (fa_file 42 10)) s_root (Some 0) ''/sync/a.txt'' (Some ''a.txt''))
      = Some (Some 1)
   \<and> nnodes s_root = 1
   \<and> nnodes (after (checkpath (veto (fa_file 42 10)) s_root (Some 0) ''/sync/a.txt'' (Some ''a.txt'')) s_root) = 2"
  by code_simp

text \<open>
  C8, amended. On every call that does not name the last component and whose path
  walk returns, the predicate is applied to the name form of the residual path the walk
  left (empty when the path is fully matched), together with the full path; if it
  vetoes, the call returns no node and the state is unchanged: no tree mutation, no
  event, no state transition.
\<close>

theorem checkpath_veto:
  assumes "fullpath e s l localpath = Some tmppath"
    and "localnodebypath e s l localpath = Some (l', parent', newname)"
    and "\<not> fst (sync_syncable e (local2name e newname) tmppath newname)"
  shows "checkpath e s l localpath None = Some (None, s)"
  using assms by (auto simp add: checkpath_def resolve_def split: prod.splits)

theorem checkpath_veto_witness:
  "fullpath (veto (fa_file 42 10)) s_root None ''/sync/a.txt'' = Some ''/sync/a.txt''
   \<and> localnodebypath (veto (fa_file 42 10)) s_root None ''/sync/a.txt'' = Some (None, Some 0, ''a.txt'')
   \<and> \<not> fst (sync_syncable (veto (fa_file 42 10)) (local2name (veto (fa_file 42 10)) ''a.txt'') ''/sync/a.txt'' ''a.txt'')
   \<and> checkpath (veto (fa_file 42 10)) s_root None ''/sync/a.txt'' None = Some (None, s_root)"
proof -
  have h1: "fullpath (veto (fa_file 42 10)) s_root None ''/sync/a.txt'' = Some ''/sync/a.txt''" by code_simp
  have h2: "localnodebypath (veto (fa_file 42 10)) s_root None ''/sync/a.txt'' = Some (None, Some 0, ''a.txt'')"
    by code_simp
  have h3: "\<not> fst (sync_syncable (veto (fa_file 42 10)) (local2name (veto (fa_file 42 10)) ''a.txt'') ''/sync/a.txt'' ''a.txt'')"
    by code_simp
  show ?thesis using h1 h2 h3 checkpath_veto [OF h1 h2 h3] by simp
qed

subsection \<open>C9: the round trip of the path resolver\<close>

text \<open>
  C9, as stated, fails: a component may be matched through the alias mapping. The
  folder \<^verbatim>\<open>/sync/Program Files\<close> has the short name \<^verbatim>\<open>PROGRA~1\<close>; both
  \<^verbatim>\<open>/sync/PROGRA~1\<close> and \<^verbatim>\<open>/sync/Program Files\<close> resolve to node 1 with an empty residual,
  and the path rebuilt from node 1 is \<^verbatim>\<open>/sync/Program Files\<close>.
\<close>

theorem alias_roundtrip_counterexample:
  "localnodebypath (dos fa_absent) s_alias None ''/sync/PROGRA~1'' = Some (Some 1, Some 0, [])
   \<and> localnodebypath (dos fa_absent) s_alias None ''/sync/Program Files'' = Some (Some 1, Some 0, [])
   \<and> getlocalpath (localseparator (dos fa_absent)) (nodes s_alias) 1 = Some ''/sync/Program Files''"
  by code_simp

text \<open>
  C9, amended. Let the root have no parent, and let every component of \<open>P\<close> that the
  walk matches be matched to a child of the node looked in whose path fragment is that
  component, as it is unless the match goes through an alias that differs from the
  fragment (\<open>plainly\<close>; nothing is asked of the rest of the tree, which may hold aliases).
  Then for every such path \<open>P\<close> that begins with the root path and the separator and on
  which \<^verbatim>\<open>localnodebypath\<close> returns: on a full match the residual is empty and the path
  rebuilt from the returned node is \<open>P\<close>; otherwise the path rebuilt from the returned
  parent, followed by the separator and the residual, is \<open>P\<close>, and the residual begins
  with the component that the parent does not have. In the tree of the counterexample
  this covers \<^verbatim>\<open>/sync/Program Files\<close> and \<^verbatim>\<open>/sync/x/y\<close> and leaves out \<^verbatim>\<open>/sync/PROGRA~1\<close>
  only.
\<close>

theorem localnodebypath_roundtrip:
  assumes "plainly e s P"
    and "localnodebypath e s None P = Some (res, par, residual)"
    and "par \<noteq> None"
  shows "roundtrip (localseparator e) (nodes s) P (res, par, residual)"
proof -
  let ?sep = "localseparator e" and ?root = "localname (nodes s localroot)"
  have pre: "take (length ?root) P = ?root" "take (length ?sep) (drop (length ?root) P) = ?sep"
    using assms(2,3) by (auto simp: localnodebypath_def Let_def split: if_splits)
  then have w: "walk ?sep (nodes s) P localroot (length ?root + length ?sep) (length ?root + length ?sep)
              = Some (res, par, residual)"
    using assms(2) by (simp add: localnodebypath_def Let_def)
  have pw: "plainwalk ?sep (nodes s) P localroot (length ?root + length ?sep) (length ?root + length ?sep)
              = Some True"
    using assms(1) by (simp add: plainly_def)
  have "P = take (length ?root) P @ drop (length ?root) P" by simp
  also have "drop (length ?root) P = ?sep @ drop (length ?root + length ?sep) P"
    by (rule drop_sep [OF pre(2)])
  finally have P: "P = ?root @ ?sep @ drop (length ?root + length ?sep) P"
    using pre(1) by simp
  have "getlocalpath ?sep (nodes s) localroot = Some ?root"
    using assms(1) by (intro getlocalpath_root) (simp add: plainly_def)
  with walk_roundtrip [OF w] pw
  have "roundtrip ?sep (nodes s) (?root @ ?sep @ drop (length ?root + length ?sep) P) (res, par, residual)"
    by simp
  with P show ?thesis by simp
qed

theorem localnodebypath_roundtrip_witness:
  "plainly (dos fa_absent) s_alias ''/sync/Program Files''
   \<and> localnodebypath (dos fa_absent) s_alias None ''/sync/Program Files'' = Some (Some 1, Some 0, [])
   \<and> roundtrip ''/'' (nodes s_alias) ''/sync/Program Files'' (Some 1, Some 0, [])
   \<and> getlocalpath ''/'' (nodes s_alias) 1 = Some ''/sync/Program Files''
   \<and> plainly (dos fa_absent) s_alias ''/sync/x/y''
   \<and> localnodebypath (dos fa_absent) s_alias None ''/sync/x/y'' = Some (None, Some 0, ''x/y'')
   \<and> roundtrip ''/'' (nodes s_alias) ''/sync/x/y'' (None, Some 0, ''x/y'')
   \<and> \<not> plainly (dos fa_absent) s_alias ''/sync/PROGRA~1''"
proof -
  have p1: "plainly (dos fa_absent) s_alias ''/sync/Program Files''" by code_simp
  have p2: "plainly (dos fa_absent) s_alias ''/sync/x/y''" by code_simp
  have p3: "\<not> plainly (dos fa_absent) s_alias ''/sync/PROGRA~1''" by code_simp
  have h1: "localnodebypath (dos fa_absent) s_alias None ''/sync/Program Files'' = Some (Some 1, Some 0, [])"
    by code_simp
  have h2: "localnodebypath (dos fa_absent) s_alias None ''/sync/x/y'' = Some (None, Some 0, ''x/y'')"
    by code_simp
  have sep: "localseparator (dos fa_absent) = ''/''" by code_simp
  have a: "roundtrip ''/'' (nodes s_alias) ''/sync/Program Files'' (Some 1, Some 0, [])"
    using localnodebypath_roundtrip [OF p1 h1] sep by simp
  have b: "roundtrip ''/'' (nodes s_alias) ''/sync/x/y'' (None, Some 0, ''x/y'')"
    using localnodebypath_roundtrip [OF p2 h2] sep by simp
  from a have "getlocalpath ''/'' (nodes s_alias) 1 = Some ''/sync/Program Files''" by (simp add: roundtrip_def)
  with p1 p2 p3 h1 h2 a b show ?thesis by simp
qed

subsection \<open>C10: destruction and \<^verbatim>\<open>changestate\<close>\<close>

text \<open>
  C10. The destructor passes through three states, one after each of its statements. In
  all three the state is \<^verbatim>\<open>SYNC_CANCELED\<close> and the sequence of observer calls is as it
  was on entry. In the first the client's list of syncs is still as on entry: the
  assignment comes before the erasure. In the second and the third, in which the
  destructor returns, one entry for the sync has been erased from the list. A call of
  \<^verbatim>\<open>changestate\<close> with a state other than the current one makes exactly one observer
  call, with the new state and while the stored state is still the old one, and then
  stores the new state; with the current state it does nothing.
\<close>

theorem destructor_bypasses_changestate:
  "map state (Sync_destroy_steps s) = [SYNC_CANCELED, SYNC_CANCELED, SYNC_CANCELED]
   \<and> map syncs (Sync_destroy_steps s)
       = [syncs s, remove1 (self s) (syncs s), remove1 (self s) (syncs s)]
   \<and> map events (Sync_destroy_steps s) = [events s, events s, events s]
   \<and> Sync_destroy s = s\<lparr>state := SYNC_CANCELED, syncs := remove1 (self s) (syncs s), syncactivity := True\<rparr>
   \<and> (newstate \<noteq> state s \<longrightarrow>
        changestate s newstate = s\<lparr>state := newstate, events := events s @ [Syncupdate_state (state s) newstate]\<rparr>)
   \<and> (newstate = state s \<longrightarrow> changestate s newstate = s)"
  by (simp add: Sync_destroy_steps_def Sync_destroy_def Let_def changestate_def emit_def)

theorem destructor_bypasses_changestate_witness:
  "SYNC_ACTIVE \<noteq> state s_root
   \<and> changestate s_root SYNC_ACTIVE =
       s_root\<lparr>state := SYNC_ACTIVE, events := events s_root @ [Syncupdate_state (state s_root) SYNC_ACTIVE]\<rparr>
   \<and> state s_root = SYNC_INITIALSCAN
   \<and> changestate s_root SYNC_INITIALSCAN = s_root
   \<and> self s_root = 1 \<and> syncs s_root = [1]
   \<and> map state (Sync_destroy_steps s_root) = [SYNC_CANCELED, SYNC_CANCELED, SYNC_CANCELED]
   \<and> map syncs (Sync_destroy_steps s_root) = [[1], [], []]
   \<and> map events (Sync_destroy_steps s_root) = [events s_root, events s_root, events s_root]
   \<and> state (Sync_destroy s_root) = SYNC_CANCELED
   \<and> syncs (Sync_destroy s_root) = []
   \<and> events (Sync_destroy s_root) = events s_root"
proof -
  have h: "SYNC_ACTIVE \<noteq> state s_root" "state s_root = SYNC_INITIALSCAN" "syncs s_root = [1]"
    "self s_root = 1"
    by code_simp+
  show ?thesis
    using h destructor_bypasses_changestate [of s_root SYNC_ACTIVE]
      destructor_bypasses_changestate [of s_root SYNC_INITIALSCAN]
    by simp
qed

end
